theory Spec2Isabelle
  imports Main
begin

section \<open>The ledger contract \<^verbatim>\<open>HackathonFunding\<close>\<close>

text \<open>
  A shallow embedding of \<^verbatim>\<open>contracts/HackathonFunding.sol\<close>. Solidity's \<^verbatim>\<open>uint256\<close> is a
  natural number; the compiler (0.8.0) checks every \<^verbatim>\<open>+\<close>, \<^verbatim>\<open>-\<close> and \<^verbatim>\<open>*\<close> and reverts with
  a panic on overflow, which the checked operations below write out, as it does for an
  array index out of range. An address is a
  natural number with \<^verbatim>\<open>address(0) = 0\<close>. A revert is the \<open>Inl\<close> of a sum: it carries the
  error and no state, because the EVM discards every storage write, log entry and value
  transfer of a reverted call.
\<close>

type_synonym address = nat
type_synonym uint256 = nat

datatype error =
    Only_organizer_can_call_this
  | Hackathon_does_not_exist
  | Hackathon_already_funded
  | Must_send_some_ETH
  | Hackathon_must_be_funded
  | Prizes_already_distributed
  | Must_select_1_3_winners
  | Invalid_winner_address
  | Duplicate_winner_address
  | Winners_not_set
  | Hackathon_must_be_ended
  | Insufficient_contract_balance
  | Distribution_mismatch
  | Hackathon_already_ended
  | Cannot_withdraw_while_prizes_are_pending
  | No_funds_to_withdraw
  | ETH_transfer_failed
  | Pausable_paused
  | Pausable_not_paused
  | ReentrancyGuard_reentrant_call
  | Panic_arithmetic
  | Panic_array_index

record Hackathon =
  totalFunding :: uint256
  isFunded :: bool
  prizesDistributed :: bool
  isEnded :: bool
  winners :: "address list"
  exists :: bool

text \<open>
  The contract's storage, with the two inherited state variables (\<open>paused\<close> of Pausable,
  \<open>entered\<close> for \<^verbatim>\<open>_status == _ENTERED\<close> of ReentrancyGuard), its ether balance and its own
  address. A Solidity mapping is total: a key never written reads as the zero value.
\<close>

record contract =
  organizer :: address
  hackathons :: "uint256 \<Rightarrow> Hackathon"
  activeHackathons :: "uint256 list"
  paused :: bool
  entered :: bool
  balance :: uint256
  self :: address

datatype event =
    HackathonCreated uint256
  | Funded uint256 uint256
  | WinnersSet uint256 "address list"
  | PrizeDistributed uint256 address uint256
  | HackathonEnded uint256
  | Withdrawn address uint256
  | Paused address
  | Unpaused address

text \<open>
  An external call \<^verbatim>\<open>recipient.call{value: amount}("")\<close>, recorded with the contract as the
  recipient's code finds it when it starts.
\<close>

record ext_call =
  recipient :: address
  amount :: uint256
  snapshot :: contract

text \<open>
  What one call frame carries: the storage, the events emitted so far and the external
  calls made so far.
\<close>

record machine =
  st :: contract
  events :: "event list"
  calls :: "ext_call list"

definition zero_Hackathon :: Hackathon where
  "zero_Hackathon =
     \<lparr>totalFunding = 0, isFunded = False, prizesDistributed = False, isEnded = False,
      winners = [], exists = False\<rparr>"

text \<open>\<^verbatim>\<open>constructor() { organizer = msg.sender; }\<close> for the contract deployed at \<open>this\<close>.\<close>

definition constructor :: "address \<Rightarrow> address \<Rightarrow> contract" where
  "constructor this sender =
     \<lparr>organizer = sender, hackathons = (\<lambda>_. zero_Hackathon), activeHackathons = [],
      paused = False, entered = False, balance = 0, self = this\<rparr>"

definition fresh :: "contract \<Rightarrow> machine" where
  "fresh s = \<lparr>st = s, events = [], calls = []\<rparr>"

definition and_then :: "error + 'a \<Rightarrow> ('a \<Rightarrow> error + 'b) \<Rightarrow> error + 'b" where
  "and_then r f = (case r of Inl e \<Rightarrow> Inl e | Inr v \<Rightarrow> f v)"

definition MAX_UINT256 :: nat where
  "MAX_UINT256 = 2 ^ 256 - 1"

definition checked_add :: "uint256 \<Rightarrow> uint256 \<Rightarrow> error + uint256" where
  "checked_add a b = (if a + b \<le> MAX_UINT256 then Inr (a + b) else Inl Panic_arithmetic)"

definition checked_sub :: "uint256 \<Rightarrow> uint256 \<Rightarrow> error + uint256" where
  "checked_sub a b = (if b \<le> a then Inr (a - b) else Inl Panic_arithmetic)"

definition checked_mul :: "uint256 \<Rightarrow> uint256 \<Rightarrow> error + uint256" where
  "checked_mul a b = (if a * b \<le> MAX_UINT256 then Inr (a * b) else Inl Panic_arithmetic)"

definition hackathon_update ::
  "uint256 \<Rightarrow> (Hackathon \<Rightarrow> Hackathon) \<Rightarrow> contract \<Rightarrow> contract" where
  "hackathon_update hackathonId f s =
     s\<lparr>hackathons := (hackathons s)(hackathonId := f (hackathons s hackathonId))\<rparr>"

definition emit :: "event \<Rightarrow> machine \<Rightarrow> machine" where
  "emit e m = m\<lparr>events := events m @ [e]\<rparr>"

text \<open>
  The external functions, as a transaction or a call from another contract names them.
  Only \<^verbatim>\<open>fundHackathon\<close> and \<^verbatim>\<open>receive\<close> are payable, so only they carry a value.
\<close>

datatype call =
    FundHackathon uint256 uint256
  | SetWinners uint256 "address list"
  | DistributePrizes uint256
  | EndHackathon uint256
  | Withdraw
  | Pause
  | Unpause
  | Receive uint256

text \<open>
  The low-level call \<^verbatim>\<open>recipient.call{value: amount}("")\<close> hands control to the code at
  the recipient's address. That code is not part of the contract; it is a parameter. Asked
  with the number of external calls the transaction has made so far, its address, the value
  and the contract as it finds it, it answers with the calls into this contract that are
  made while it runs, each with its sender (the recipient itself or a contract it calls
  in turn), and with whether it returns successfully. An externally owned account has no
  code: it makes no call and accepts.
\<close>

type_synonym reaction = "(address \<times> call) list \<times> bool"
type_synonym callee = "nat \<Rightarrow> address \<Rightarrow> uint256 \<Rightarrow> contract \<Rightarrow> reaction"
type_synonym entry = "address \<Rightarrow> call \<Rightarrow> machine \<Rightarrow> error + machine"

text \<open>
  The calls made during a callback, in order, given how a call enters the contract. One
  that reverts is undone and the callback goes on; a callback that lets the revert through
  is one that does not return successfully.
\<close>

fun reenter_all :: "entry \<Rightarrow> (address \<times> call) list \<Rightarrow> machine \<Rightarrow> machine" where
  "reenter_all reentry [] m = m"
| "reenter_all reentry ((sender, c) # rest) m =
     reenter_all reentry rest (case reentry sender c m of Inl e \<Rightarrow> m | Inr m' \<Rightarrow> m')"

text \<open>
  \<^verbatim>\<open>_safeTransfer\<close>. The EVM fails the call when the balance is short; otherwise the value
  has left the balance when the recipient's code starts, and \<open>snapshot\<close> is the contract as
  that code finds it. A call to the contract itself runs its empty \<^verbatim>\<open>receive()\<close>, which
  succeeds and leaves the balance where it was. The event follows the call.
\<close>

definition debited :: "contract \<Rightarrow> address \<Rightarrow> uint256 \<Rightarrow> contract" where
  "debited s to amt = (if to = self s then s else s\<lparr>balance := balance s - amt\<rparr>)"

definition reaction_to :: "callee \<Rightarrow> machine \<Rightarrow> address \<Rightarrow> uint256 \<Rightarrow> reaction" where
  "reaction_to callee m to amt =
     (if to = self (st m) then ([], True)
      else callee (length (calls m)) to amt (debited (st m) to amt))"

definition safeTransfer ::
  "entry \<Rightarrow> callee \<Rightarrow> address \<Rightarrow> uint256 \<Rightarrow> uint256 \<Rightarrow> machine \<Rightarrow> error + machine" where
  "safeTransfer reentry callee to amt hackathonId m =
     (if \<not> amt \<le> balance (st m) then Inl ETH_transfer_failed
      else
        let s1 = debited (st m) to amt;
            m1 = m\<lparr>st := s1,
                   calls := calls m @ [\<lparr>recipient = to, amount = amt, snapshot = s1\<rparr>]\<rparr>;
            r = reaction_to callee m to amt;
            m2 = reenter_all reentry (fst r) m1;
            success = snd r
        in if \<not> success then Inl ETH_transfer_failed
           else if hackathonId > 0 then Inr (emit (PrizeDistributed hackathonId to amt) m2)
           else Inr m2)"

text \<open>
  \<^verbatim>\<open>_removeActiveHackathon\<close>: the \<^verbatim>\<open>for\<close> loop from index \<open>i\<close>; at the first match the last
  element is copied over it (unless it is the last) and the array is popped.
\<close>

function removeActive_from :: "nat \<Rightarrow> uint256 \<Rightarrow> uint256 list \<Rightarrow> uint256 list" where
  "removeActive_from i hackathonId xs =
     (if i < length xs then
        (if xs ! i = hackathonId then
           butlast (if i \<noteq> length xs - 1 then xs[i := xs ! (length xs - 1)] else xs)
         else removeActive_from (i + 1) hackathonId xs)
      else xs)"
  by pat_completeness auto
termination
  by (relation "measure (\<lambda>(i, hackathonId, xs). length xs - i)") auto

declare removeActive_from.simps [simp del]

definition removeActiveHackathon :: "uint256 \<Rightarrow> contract \<Rightarrow> contract" where
  "removeActiveHackathon hackathonId s =
     s\<lparr>activeHackathons := removeActive_from 0 hackathonId (activeHackathons s)\<rparr>"

text \<open>
  Modelled from the spec: the inherited modifiers \<^verbatim>\<open>whenNotPaused\<close> and \<^verbatim>\<open>nonReentrant\<close>
  and the functions \<^verbatim>\<open>_pause\<close> and \<^verbatim>\<open>_unpause\<close> come from the imported OpenZeppelin
  contracts, which are not among the sources. The circuit breaker disables an operation
  while \<open>paused\<close> holds; the reentrancy guard rejects a call while \<open>entered\<close> holds, holds
  it during the body and releases it afterwards.
\<close>

definition nonReentrant :: "(machine \<Rightarrow> error + machine) \<Rightarrow> machine \<Rightarrow> error + machine" where
  "nonReentrant body m =
     (if entered (st m) then Inl ReentrancyGuard_reentrant_call
      else and_then (body (m\<lparr>st := (st m)\<lparr>entered := True\<rparr>\<rparr>))
             (\<lambda>m'. Inr (m'\<lparr>st := (st m')\<lparr>entered := False\<rparr>\<rparr>)))"

definition whenNotPaused :: "(machine \<Rightarrow> error + machine) \<Rightarrow> machine \<Rightarrow> error + machine" where
  "whenNotPaused body m = (if paused (st m) then Inl Pausable_paused else body m)"

definition onlyOrganizer ::
  "address \<Rightarrow> (machine \<Rightarrow> error + machine) \<Rightarrow> machine \<Rightarrow> error + machine" where
  "onlyOrganizer sender body m =
     (if sender \<noteq> organizer (st m) then Inl Only_organizer_can_call_this else body m)"

definition hackathonExists ::
  "uint256 \<Rightarrow> (machine \<Rightarrow> error + machine) \<Rightarrow> machine \<Rightarrow> error + machine" where
  "hackathonExists hackathonId body m =
     (if \<not> exists (hackathons (st m) hackathonId) then Inl Hackathon_does_not_exist
      else body m)"

text \<open>
  \<^verbatim>\<open>hackathon.winners[i]\<close>, read from storage when the transfer is made.
\<close>

definition winner_at :: "uint256 \<Rightarrow> nat \<Rightarrow> machine \<Rightarrow> error + address" where
  "winner_at hackathonId i m =
     (let ws = winners (hackathons (st m) hackathonId)
      in if i < length ws then Inr (ws ! i) else Inl Panic_array_index)"

text \<open>\<^verbatim>\<open>distributePrizes\<close>, body first.\<close>

definition distributePrizes_body ::
  "entry \<Rightarrow> callee \<Rightarrow> uint256 \<Rightarrow> machine \<Rightarrow> error + machine" where
  "distributePrizes_body reentry callee hackathonId m =
     (let hackathon = (\<lambda>m. hackathons (st m) hackathonId);
          transfer = safeTransfer reentry callee
      in
      if \<not> isFunded (hackathon m) then Inl Hackathon_must_be_funded
      else if \<not> length (winners (hackathon m)) > 0 then Inl Winners_not_set
      else if prizesDistributed (hackathon m) then Inl Prizes_already_distributed
      else if \<not> isEnded (hackathon m) then Inl Hackathon_must_be_ended
      else if \<not> balance (st m) \<ge> totalFunding (hackathon m) then Inl Insufficient_contract_balance
      else
        and_then
          (if length (winners (hackathon m)) = 3 then
             and_then (checked_mul (totalFunding (hackathon m)) 50) (\<lambda>x1.
             let prizeAmount1 = x1 div 100 in
             and_then (checked_mul (totalFunding (hackathon m)) 30) (\<lambda>x2.
             let prizeAmount2 = x2 div 100 in
             and_then (checked_sub (totalFunding (hackathon m)) prizeAmount1) (\<lambda>x3.
             and_then (checked_sub x3 prizeAmount2) (\<lambda>prizeAmount3.
             and_then (winner_at hackathonId 0 m) (\<lambda>w0.
             and_then (transfer w0 prizeAmount1 hackathonId m) (\<lambda>m1.
             and_then (checked_add 0 prizeAmount1) (\<lambda>t1.
             and_then (winner_at hackathonId 1 m1) (\<lambda>w1.
             and_then (transfer w1 prizeAmount2 hackathonId m1) (\<lambda>m2.
             and_then (checked_add t1 prizeAmount2) (\<lambda>t2.
             and_then (winner_at hackathonId 2 m2) (\<lambda>w2.
             and_then (transfer w2 prizeAmount3 hackathonId m2) (\<lambda>m3.
             and_then (checked_add t2 prizeAmount3) (\<lambda>t3.
             Inr (m3, t3))))))))))))))
           else if length (winners (hackathon m)) = 2 then
             and_then (checked_mul (totalFunding (hackathon m)) 70) (\<lambda>x1.
             let prizeAmount1 = x1 div 100 in
             and_then (checked_sub (totalFunding (hackathon m)) prizeAmount1) (\<lambda>prizeAmount2.
             and_then (winner_at hackathonId 0 m) (\<lambda>w0.
             and_then (transfer w0 prizeAmount1 hackathonId m) (\<lambda>m1.
             and_then (checked_add 0 prizeAmount1) (\<lambda>t1.
             and_then (winner_at hackathonId 1 m1) (\<lambda>w1.
             and_then (transfer w1 prizeAmount2 hackathonId m1) (\<lambda>m2.
             and_then (checked_add t1 prizeAmount2) (\<lambda>t2.
             Inr (m2, t2)))))))))
           else
             (let prizeAmount = totalFunding (hackathon m) in
              and_then (winner_at hackathonId 0 m) (\<lambda>w0.
              and_then (transfer w0 prizeAmount hackathonId m) (\<lambda>m1.
              and_then (checked_add 0 prizeAmount) (\<lambda>t1.
              Inr (m1, t1))))))
          (\<lambda>(m', totalDistributed).
             if totalDistributed \<noteq> totalFunding (hackathon m') then Inl Distribution_mismatch
             else Inr (m'\<lparr>st := removeActiveHackathon hackathonId
                         (hackathon_update hackathonId (\<lambda>h. h\<lparr>prizesDistributed := True\<rparr>) (st m'))\<rparr>)))"

definition distributePrizes ::
  "entry \<Rightarrow> callee \<Rightarrow> address \<Rightarrow> uint256 \<Rightarrow> machine \<Rightarrow> error + machine" where
  "distributePrizes reentry callee sender hackathonId =
     onlyOrganizer sender (whenNotPaused (nonReentrant (hackathonExists hackathonId
       (distributePrizes_body reentry callee hackathonId))))"

text \<open>
  \<^verbatim>\<open>fundHackathon\<close> is payable: the value sent is in the balance when the modifiers and the
  body run.
\<close>

definition fundHackathon_body :: "uint256 \<Rightarrow> uint256 \<Rightarrow> machine \<Rightarrow> error + machine" where
  "fundHackathon_body hackathonId msg_value m =
     (let hackathon = (\<lambda>m. hackathons (st m) hackathonId);
          m1 = (if \<not> exists (hackathon m)
                then emit (HackathonCreated hackathonId)
                       (m\<lparr>st := hackathon_update hackathonId (\<lambda>h. h\<lparr>exists := True\<rparr>) (st m)\<rparr>)
                else m)
      in if isFunded (hackathon m1) then Inl Hackathon_already_funded
         else if \<not> msg_value > 0 then Inl Must_send_some_ETH
         else Inr (emit (Funded hackathonId msg_value)
                (m1\<lparr>st := (hackathon_update hackathonId
                              (\<lambda>h. h\<lparr>totalFunding := msg_value, isFunded := True\<rparr>) (st m1))
                           \<lparr>activeHackathons := activeHackathons (st m1) @ [hackathonId]\<rparr>\<rparr>)))"

definition fundHackathon :: "address \<Rightarrow> uint256 \<Rightarrow> uint256 \<Rightarrow> machine \<Rightarrow> error + machine" where
  "fundHackathon sender hackathonId msg_value m =
     onlyOrganizer sender (whenNotPaused (nonReentrant
       (fundHackathon_body hackathonId msg_value)))
       (m\<lparr>st := (st m)\<lparr>balance := balance (st m) + msg_value\<rparr>\<rparr>)"

text \<open>
  \<^verbatim>\<open>setWinners\<close>: the inner loop over \<open>j\<close> and the outer loop over \<open>i\<close> of the duplicate
  check, each stopping at the first failed \<^verbatim>\<open>require\<close>.
\<close>

function winners_inner :: "nat \<Rightarrow> nat \<Rightarrow> address list \<Rightarrow> error + unit" where
  "winners_inner i j ws =
     (if j < length ws then
        (if \<not> ws ! i \<noteq> ws ! j then Inl Duplicate_winner_address
         else winners_inner i (j + 1) ws)
      else Inr ())"
  by pat_completeness auto
termination
  by (relation "measure (\<lambda>(i, j, ws). length ws - j)") auto

function winners_outer :: "nat \<Rightarrow> address list \<Rightarrow> error + unit" where
  "winners_outer i ws =
     (if i < length ws then
        (if \<not> ws ! i \<noteq> 0 then Inl Invalid_winner_address
         else and_then (winners_inner i (i + 1) ws) (\<lambda>_. winners_outer (i + 1) ws))
      else Inr ())"
  by pat_completeness auto
termination
  by (relation "measure (\<lambda>(i, ws). length ws - i)") auto

declare winners_inner.simps [simp del]
declare winners_outer.simps [simp del]

definition setWinners_body :: "uint256 \<Rightarrow> address list \<Rightarrow> machine \<Rightarrow> error + machine" where
  "setWinners_body hackathonId ws m =
     (let hackathon = hackathons (st m) hackathonId in
      if \<not> isFunded hackathon then Inl Hackathon_must_be_funded
      else if prizesDistributed hackathon then Inl Prizes_already_distributed
      else if \<not> (length ws \<ge> 1 \<and> length ws \<le> 3) then Inl Must_select_1_3_winners
      else and_then (winners_outer 0 ws) (\<lambda>_.
        Inr (emit (WinnersSet hackathonId ws)
               (m\<lparr>st := hackathon_update hackathonId (\<lambda>h. h\<lparr>winners := ws\<rparr>) (st m)\<rparr>))))"

definition setWinners :: "address \<Rightarrow> uint256 \<Rightarrow> address list \<Rightarrow> machine \<Rightarrow> error + machine" where
  "setWinners sender hackathonId ws =
     onlyOrganizer sender (whenNotPaused (hackathonExists hackathonId
       (setWinners_body hackathonId ws)))"

definition endHackathon_body :: "uint256 \<Rightarrow> machine \<Rightarrow> error + machine" where
  "endHackathon_body hackathonId m =
     (if isEnded (hackathons (st m) hackathonId) then Inl Hackathon_already_ended
      else Inr (emit (HackathonEnded hackathonId)
             (m\<lparr>st := hackathon_update hackathonId (\<lambda>h. h\<lparr>isEnded := True\<rparr>) (st m)\<rparr>)))"

definition endHackathon :: "address \<Rightarrow> uint256 \<Rightarrow> machine \<Rightarrow> error + machine" where
  "endHackathon sender hackathonId =
     onlyOrganizer sender (whenNotPaused (hackathonExists hackathonId
       (endHackathon_body hackathonId)))"

definition withdraw_body :: "entry \<Rightarrow> callee \<Rightarrow> machine \<Rightarrow> error + machine" where
  "withdraw_body reentry callee m =
     (if \<not> length (activeHackathons (st m)) = 0 then Inl Cannot_withdraw_while_prizes_are_pending
      else let bal = balance (st m) in
        if \<not> bal > 0 then Inl No_funds_to_withdraw
        else and_then (safeTransfer reentry callee (organizer (st m)) bal 0 m) (\<lambda>m1.
          Inr (emit (Withdrawn (organizer (st m1)) bal) m1)))"

definition withdraw :: "entry \<Rightarrow> callee \<Rightarrow> address \<Rightarrow> machine \<Rightarrow> error + machine" where
  "withdraw reentry callee sender =
     onlyOrganizer sender (whenNotPaused (nonReentrant (withdraw_body reentry callee)))"

text \<open>
  Modelled from the spec: \<^verbatim>\<open>_pause\<close> and \<^verbatim>\<open>_unpause\<close> of the imported Pausable, the
  organizer's circuit breaker: the first requires the contract not paused and pauses it,
  the second requires it paused and releases it.
\<close>

definition pause :: "address \<Rightarrow> machine \<Rightarrow> error + machine" where
  "pause sender =
     onlyOrganizer sender (whenNotPaused
       (\<lambda>m. Inr (emit (Paused sender) (m\<lparr>st := (st m)\<lparr>paused := True\<rparr>\<rparr>))))"

definition unpause :: "address \<Rightarrow> machine \<Rightarrow> error + machine" where
  "unpause sender =
     onlyOrganizer sender
       (\<lambda>m. if \<not> paused (st m) then Inl Pausable_not_paused
            else Inr (emit (Unpaused sender) (m\<lparr>st := (st m)\<lparr>paused := False\<rparr>\<rparr>)))"

text \<open>\<^verbatim>\<open>receive() external payable {}\<close>: anyone may send ether to the contract.\<close>

definition receive :: "uint256 \<Rightarrow> machine \<Rightarrow> error + machine" where
  "receive msg_value m = Inr (m\<lparr>st := (st m)\<lparr>balance := balance (st m) + msg_value\<rparr>\<rparr>)"

subsection \<open>Transactions\<close>

text \<open>
  The dispatcher of the external functions, given how a call made during one of its
  transfers enters the contract.
\<close>

fun dispatch :: "entry \<Rightarrow> callee \<Rightarrow> address \<Rightarrow> call \<Rightarrow> machine \<Rightarrow> error + machine" where
  "dispatch reentry callee sender (FundHackathon hackathonId msg_value) m =
     fundHackathon sender hackathonId msg_value m"
| "dispatch reentry callee sender (SetWinners hackathonId ws) m = setWinners sender hackathonId ws m"
| "dispatch reentry callee sender (DistributePrizes hackathonId) m =
     distributePrizes reentry callee sender hackathonId m"
| "dispatch reentry callee sender (EndHackathon hackathonId) m = endHackathon sender hackathonId m"
| "dispatch reentry callee sender Withdraw m = withdraw reentry callee sender m"
| "dispatch reentry callee sender Pause m = pause sender m"
| "dispatch reentry callee sender Unpause m = unpause sender m"
| "dispatch reentry callee sender (Receive msg_value) m = receive msg_value m"

text \<open>
  A transaction enters through the dispatcher, and so does every call made during its
  transfers. Transfers are made only under the reentrancy guard, where a second
  \<^verbatim>\<open>distributePrizes\<close> or \<^verbatim>\<open>withdraw\<close> reverts before its body: a call at the third level
  never runs, and two levels of the dispatcher are the whole contract (\<open>execute_depth\<close>
  below). A transaction that reverts leaves the contract as it was and no event; a run is a
  sequence of transactions, each with its sender and with the behaviour of the recipients
  at that time.
\<close>

definition rejected :: entry where
  "rejected sender c m = Inl ReentrancyGuard_reentrant_call"

definition execute :: "callee \<Rightarrow> address \<Rightarrow> call \<Rightarrow> contract \<Rightarrow> error + machine" where
  "execute callee sender c s = dispatch (dispatch rejected callee) callee sender c (fresh s)"

definition transact :: "callee \<Rightarrow> address \<Rightarrow> call \<Rightarrow> contract \<Rightarrow> contract" where
  "transact callee sender c s = (case execute callee sender c s of Inl e \<Rightarrow> s | Inr m \<Rightarrow> st m)"

definition emitted :: "callee \<Rightarrow> address \<Rightarrow> call \<Rightarrow> contract \<Rightarrow> event list" where
  "emitted callee sender c s =
     (case execute callee sender c s of Inl e \<Rightarrow> [] | Inr m \<Rightarrow> events m)"

fun run :: "contract \<Rightarrow> (callee \<times> address \<times> call) list \<Rightarrow> contract" where
  "run s [] = s"
| "run s ((callee, sender, c) # txs) = run (transact callee sender c s) txs"

definition payouts :: "machine \<Rightarrow> (address \<times> uint256) list" where
  "payouts m = map (\<lambda>c. (recipient c, amount c)) (calls m)"

fun is_PrizeDistributed :: "event \<Rightarrow> bool" where
  "is_PrizeDistributed (PrizeDistributed hackathonId winner amt) = True"
| "is_PrizeDistributed e = False"

text \<open>The two writes that end a distribution: the flag, then the removal from the index.\<close>

definition commit :: "uint256 \<Rightarrow> machine \<Rightarrow> machine" where
  "commit hackathonId m =
     m\<lparr>st := removeActiveHackathon hackathonId
             (hackathon_update hackathonId (\<lambda>h. h\<lparr>prizesDistributed := True\<rparr>) (st m))\<rparr>"

text \<open>
  What no call made during a transfer can change: the organizer, the guard, the index and,
  of every record, the funding, the three flags written by guarded functions and by the
  first funding; a winners list is as it was or has at most three entries.
\<close>

definition preserved :: "contract \<Rightarrow> contract \<Rightarrow> bool" where
  "preserved s s' \<longleftrightarrow>
     organizer s' = organizer s \<and> self s' = self s \<and> entered s' = entered s \<and>
     activeHackathons s' = activeHackathons s \<and>
     (\<forall>i. totalFunding (hackathons s' i) = totalFunding (hackathons s i) \<and>
          isFunded (hackathons s' i) = isFunded (hackathons s i) \<and>
          prizesDistributed (hackathons s' i) = prizesDistributed (hackathons s i) \<and>
          exists (hackathons s' i) = exists (hackathons s i) \<and>
          (winners (hackathons s' i) = winners (hackathons s i) \<or>
           length (winners (hackathons s' i)) \<le> 3))"

text \<open>
  The organizer makes no call into the contract while a transfer is running: it is an
  externally owned account, or a contract that is never called back.
\<close>

definition organizer_silent :: "callee \<Rightarrow> address \<Rightarrow> bool" where
  "organizer_silent callee org \<longleftrightarrow>
     (\<forall>i to amt s. \<forall>x \<in> set (fst (callee i to amt s)). fst x \<noteq> org)"

subsection \<open>The invariant of the reachable states\<close>

text \<open>
  Between transactions the guard is released, the index has no duplicates and holds exactly
  the funded, undistributed ids, no record has more than three winners, and a distributed
  record is funded.
\<close>

definition invariant :: "contract \<Rightarrow> bool" where
  "invariant s \<longleftrightarrow>
     \<not> entered s \<and> distinct (activeHackathons s) \<and>
     (\<forall>hackathonId. hackathonId \<in> set (activeHackathons s) \<longleftrightarrow>
        isFunded (hackathons s hackathonId) \<and> \<not> prizesDistributed (hackathons s hackathonId)) \<and>
     (\<forall>hackathonId. length (winners (hackathons s hackathonId)) \<le> 3) \<and>
     (\<forall>hackathonId. prizesDistributed (hackathons s hackathonId) \<longrightarrow>
        isFunded (hackathons s hackathonId))"

text \<open>The two entry points that write \<^verbatim>\<open>activeHackathons\<close>.\<close>

fun touches_index :: "call \<Rightarrow> bool" where
  "touches_index (FundHackathon hackathonId msg_value) = True"
| "touches_index (DistributePrizes hackathonId) = True"
| "touches_index c = False"

subsection \<open>Example runs\<close>

text \<open>Recipients without code: every transfer is accepted and nothing is called.\<close>

definition all_accept :: callee where
  "all_accept i to amt s = ([], True)"

text \<open>
  The organizer \<open>1\<close> as a contract whose code, when it is paid, replaces the winners of
  hackathon 7.
\<close>

definition organizer_reenters :: callee where
  "organizer_reenters i to amt s =
     (if to = 1 then ([(1, SetWinners 7 [21, 22, 23])], True) else ([], True))"

text \<open>
  The organizer \<open>1\<close> deploys the contract at address \<open>1000\<close>, funds hackathon \<open>hackathonId\<close>,
  sets its winners and ends it.
\<close>

definition ready :: "uint256 \<Rightarrow> uint256 \<Rightarrow> address list \<Rightarrow> contract" where
  "ready hackathonId funding ws =
     run (constructor 1000 1)
       [(all_accept, 1, FundHackathon hackathonId funding),
        (all_accept, 1, SetWinners hackathonId ws),
        (all_accept, 1, EndHackathon hackathonId)]"

text \<open>The same run before the hackathon is ended.\<close>

definition pending :: contract where
  "pending = run (constructor 1000 1)
       [(all_accept, 1, FundHackathon 7 100), (all_accept, 1, SetWinners 7 [11, 12, 13])]"

text \<open>The run after the funding alone.\<close>

definition funded :: contract where
  "funded = run (constructor 1000 1) [(all_accept, 1, FundHackathon 7 100)]"

text \<open>Three funded hackathons, the first with winners and ended.\<close>

definition three_funded :: contract where
  "three_funded = run (constructor 1000 1)
     [(all_accept, 1, FundHackathon 7 100), (all_accept, 1, FundHackathon 8 200),
      (all_accept, 1, FundHackathon 9 300), (all_accept, 1, SetWinners 7 [11, 12]),
      (all_accept, 1, EndHackathon 7)]"

text \<open>
  The run of \<open>ready\<close> continued: somebody sends 4 wei to the contract and the prizes are
  distributed, which leaves the 4 wei as surplus.
\<close>

definition surplus :: contract where
  "surplus = run (ready 7 101 [11, 12, 13])
     [(all_accept, 5, Receive 4), (all_accept, 1, DistributePrizes 7)]"

text \<open>The run of \<open>ready\<close> followed by the distribution alone: nothing is left.\<close>

definition settled :: contract where
  "settled = transact all_accept 1 (DistributePrizes 7) (ready 7 101 [11, 12, 13])"

section \<open>The settlement handlers of \<^verbatim>\<open>server.js\<close>\<close>

text \<open>
  The four routes \<^verbatim>\<open>POST /api/hackathons/:id/end\<close>, \<^verbatim>\<open>/fund\<close>, \<^verbatim>\<open>/set-winners\<close> and
  \<^verbatim>\<open>/distribute\<close>, after \<^verbatim>\<open>authenticateToken\<close> has set \<^verbatim>\<open>req.user\<close>. Every \<^verbatim>\<open>await\<close> either
  returns a value or throws an error with a message; the handler's \<^verbatim>\<open>catch\<close> turns a throw
  into a 500 response.
\<close>

datatype 'a outcome = Throws string | Returns 'a

text \<open>
  The calls made on the ethers \<^verbatim>\<open>contract\<close> object, and what the ledger answers to one of
  them: \<open>submitted\<close> is the outcome of \<^verbatim>\<open>await contract.f(...)\<close> (the transaction, known by
  its hash), \<open>confirmed\<close> the outcome of \<^verbatim>\<open>await tx.wait()\<close>, which throws when the
  transaction reverts or the wait gives up.
\<close>

datatype ledger_call =
    Call_endHackathon string
  | Call_fundHackathon string nat
  | Call_setWinners string "string list"
  | Call_distributePrizes string

record ledger_reply =
  submitted :: "string outcome"
  confirmed :: "unit outcome"

text \<open>
  What the handlers use and the sources do not define: JavaScript's \<^verbatim>\<open>isNaN\<close>,
  \<^verbatim>\<open>toString\<close>, \<^verbatim>\<open>parseFloat\<close>, truthiness and comparison with 0 on the values \<open>'v\<close> of
  the language; \<^verbatim>\<open>ethers.parseEther\<close> and \<^verbatim>\<open>ethers.isAddress\<close>; the clock; the database
  driver, which reads the id parameter of a query as an integer or throws, and whose
  \<^verbatim>\<open>UPDATE\<close> may throw; and the ledger.
\<close>

record 'v runtime =
  isNaN :: "string \<Rightarrow> bool"
  toString :: "'v \<Rightarrow> string outcome"
  parseEther :: "string \<Rightarrow> nat outcome"
  parseFloat :: "'v \<Rightarrow> 'v"
  isAddress :: "string \<Rightarrow> bool"
  truthy :: "'v \<Rightarrow> bool"
  gt0 :: "'v \<Rightarrow> bool"
  le0 :: "'v \<Rightarrow> bool"
  now :: string
  select_id :: "string \<Rightarrow> int outcome"
  update_error :: "string option"
  ledger :: "ledger_call \<Rightarrow> ledger_reply"

text \<open>
  The mirrored columns of a row of \<^verbatim>\<open>hackathons\<close> that the handlers read and write (\<open>None\<close>
  is SQL \<^verbatim>\<open>NULL\<close>; \<open>winners_json\<close> is the column \<^verbatim>\<open>winners\<close>, \<open>None\<close> when it holds no
  array), and the projection store as a map from ids to rows.
\<close>

record 'v hackathon_row =
  organizer_id :: int
  status :: string
  manually_ended :: "bool option"
  manually_ended_at :: "string option"
  funded_amount :: "'v option"
  funded_at :: "string option"
  winners_json :: "string list option"
  prizes_distributed :: "bool option"
  prizes_distributed_at :: "string option"

type_synonym 'v projection = "int \<rightharpoonup> 'v hackathon_row"

text \<open>
  A request: \<^verbatim>\<open>req.params.id\<close>, \<^verbatim>\<open>req.user\<close>, \<^verbatim>\<open>req.body.amount\<close> and \<^verbatim>\<open>req.body.winners\<close>
  (\<open>None\<close> when it is missing or not an array). A reply is the store after the handler, the
  response and the ledger calls the handler made.
\<close>

record 'v request =
  id_param :: string
  user_role :: string
  user_id :: int
  body_amount :: 'v
  body_winners :: "string list option"

datatype response = Failure nat string | Success string string

type_synonym 'v reply = "'v projection \<times> response \<times> ledger_call list"

text \<open>
  JavaScript on a column value: a boolean column is truthy when it is \<^verbatim>\<open>TRUE\<close>;
  \<^verbatim>\<open>null > 0\<close> is false, \<^verbatim>\<open>null <= 0\<close> is true and \<^verbatim>\<open>!null\<close> is true.
\<close>

definition column_true :: "bool option \<Rightarrow> bool" where
  "column_true b = (b = Some True)"

definition amount_gt0 :: "'v runtime \<Rightarrow> 'v option \<Rightarrow> bool" where
  "amount_gt0 env a = (case a of None \<Rightarrow> False | Some v \<Rightarrow> gt0 env v)"

definition amount_le0 :: "'v runtime \<Rightarrow> 'v option \<Rightarrow> bool" where
  "amount_le0 env a = (case a of None \<Rightarrow> True | Some v \<Rightarrow> le0 env v)"

definition amount_falsy :: "'v runtime \<Rightarrow> 'v option \<Rightarrow> bool" where
  "amount_falsy env a = (case a of None \<Rightarrow> True | Some v \<Rightarrow> \<not> truthy env v)"

text \<open>
  The tail the four handlers share: submit the transaction, wait for it, write the row,
  answer with the transaction hash. A throw at any of the three \<^verbatim>\<open>await\<close>s goes to the
  \<^verbatim>\<open>catch\<close> block, which answers 500 with the handler's prefix and the error's message.
\<close>

definition settle ::
  "'v runtime \<Rightarrow> ledger_call \<Rightarrow> string \<Rightarrow> string \<Rightarrow> ('v projection \<Rightarrow> 'v projection) \<Rightarrow>
     'v projection \<Rightarrow> 'v reply" where
  "settle env c failed message update db =
     (case submitted (ledger env c) of
        Throws e \<Rightarrow> (db, Failure 500 (failed @ e), [c])
      | Returns tx \<Rightarrow>
          (case confirmed (ledger env c) of
             Throws e \<Rightarrow> (db, Failure 500 (failed @ e), [c])
           | Returns receipt \<Rightarrow>
               (case update_error env of
                  Some e \<Rightarrow> (db, Failure 500 (failed @ e), [c])
                | None \<Rightarrow> (update db, Success message tx, [c]))))"

definition post_end :: "'v runtime \<Rightarrow> 'v request \<Rightarrow> 'v projection \<Rightarrow> 'v reply" where
  "post_end env req db =
     (let hackathon_id = id_param req in
      if isNaN env hackathon_id then (db, Failure 400 ''Invalid hackathon ID'', [])
      else if user_role req \<noteq> ''organizer''
        then (db, Failure 403 ''Only organizers can end hackathons'', [])
      else case select_id env hackathon_id of
        Throws e \<Rightarrow> (db, Failure 500 (''Failed to end hackathon: '' @ e), [])
      | Returns k \<Rightarrow>
          (case db k of
             None \<Rightarrow> (db, Failure 404 ''Hackathon not found'', [])
           | Some hackathon \<Rightarrow>
               if organizer_id hackathon \<noteq> user_id req
                 then (db, Failure 403 ''Only the hackathon organizer can end it'', [])
               else if column_true (manually_ended hackathon)
                 then (db, Failure 400 ''Hackathon has already been ended'', [])
               else settle env (Call_endHackathon hackathon_id) ''Failed to end hackathon: ''
                      ''Hackathon ended successfully''
                      (\<lambda>db. db(k \<mapsto> hackathon\<lparr>manually_ended := Some True,
                                  manually_ended_at := Some (now env), status := ''ended''\<rparr>))
                      db))"

definition post_fund :: "'v runtime \<Rightarrow> 'v request \<Rightarrow> 'v projection \<Rightarrow> 'v reply" where
  "post_fund env req db =
     (let hackathon_id = id_param req; amountJs = body_amount req in
      if user_role req \<noteq> ''organizer''
        then (db, Failure 403 ''Only organizers can fund hackathons'', [])
      else case select_id env hackathon_id of
        Throws e \<Rightarrow> (db, Failure 500 (''Failed to fund hackathon: '' @ e), [])
      | Returns k \<Rightarrow>
          (case db k of
             None \<Rightarrow> (db, Failure 404 ''Hackathon not found'', [])
           | Some hackathon \<Rightarrow>
               if organizer_id hackathon \<noteq> user_id req
                 then (db, Failure 403 ''Only the hackathon organizer can fund it'', [])
               else if \<not> column_true (manually_ended hackathon)
                 then (db, Failure 400 ''Hackathon must be ended before funding'', [])
               else if amount_gt0 env (funded_amount hackathon)
                 then (db, Failure 400 ''Hackathon is already funded'', [])
               else case toString env amountJs of
                 Throws e \<Rightarrow> (db, Failure 500 (''Failed to fund hackathon: '' @ e), [])
               | Returns text \<Rightarrow>
                   (case parseEther env text of
                      Throws e \<Rightarrow> (db, Failure 500 (''Failed to fund hackathon: '' @ e), [])
                    | Returns amountWei \<Rightarrow>
                        settle env (Call_fundHackathon hackathon_id amountWei) ''Failed to fund hackathon: ''
                          ''Hackathon funded successfully''
                          (\<lambda>db. db(k \<mapsto> hackathon\<lparr>funded_amount := Some (parseFloat env amountJs),
                                      funded_at := Some (now env)\<rparr>))
                          db)))"

text \<open>
  \<^verbatim>\<open>winners.map(w => { if (!ethers.isAddress(w)) throw ...; return w; })\<close>
\<close>

fun winnerAddresses :: "'v runtime \<Rightarrow> string list \<Rightarrow> string list outcome" where
  "winnerAddresses env [] = Returns []"
| "winnerAddresses env (w # ws) =
     (if \<not> isAddress env w then Throws (''Invalid Ethereum address: '' @ w)
      else case winnerAddresses env ws of
        Throws e \<Rightarrow> Throws e
      | Returns rest \<Rightarrow> Returns (w # rest))"

definition post_set_winners :: "'v runtime \<Rightarrow> 'v request \<Rightarrow> 'v projection \<Rightarrow> 'v reply" where
  "post_set_winners env req db =
     (let hackathon_id = id_param req in
      if isNaN env hackathon_id then (db, Failure 400 ''Invalid hackathon ID'', [])
      else if user_role req \<noteq> ''organizer''
        then (db, Failure 403 ''Only organizers can set winners'', [])
      else case body_winners req of
        None \<Rightarrow> (db, Failure 400 ''Winners array is required'', [])
      | Some ws \<Rightarrow>
          if length ws = 0 then (db, Failure 400 ''Winners array is required'', [])
          else case select_id env hackathon_id of
            Throws e \<Rightarrow> (db, Failure 500 (''Failed to set winners: '' @ e), [])
          | Returns k \<Rightarrow>
              (case db k of
                 None \<Rightarrow> (db, Failure 404 ''Hackathon not found'', [])
               | Some hackathon \<Rightarrow>
                   if organizer_id hackathon \<noteq> user_id req
                     then (db, Failure 403 ''Only the hackathon organizer can set winners'', [])
                   else if \<not> column_true (manually_ended hackathon)
                     then (db, Failure 400 ''Hackathon must be ended before setting winners'', [])
                   else if amount_le0 env (funded_amount hackathon)
                     then (db, Failure 400 ''Hackathon must be funded before setting winners'', [])
                   else case winnerAddresses env ws of
                     Throws e \<Rightarrow> (db, Failure 500 (''Failed to set winners: '' @ e), [])
                   | Returns addresses \<Rightarrow>
                       settle env (Call_setWinners hackathon_id addresses) ''Failed to set winners: ''
                         ''Winners set successfully''
                         (\<lambda>db. db(k \<mapsto> hackathon\<lparr>winners_json := Some addresses\<rparr>))
                         db))"

definition post_distribute :: "'v runtime \<Rightarrow> 'v request \<Rightarrow> 'v projection \<Rightarrow> 'v reply" where
  "post_distribute env req db =
     (let hackathon_id = id_param req in
      if user_role req \<noteq> ''organizer''
        then (db, Failure 403 ''Only organizers can distribute prizes'', [])
      else case select_id env hackathon_id of
        Throws e \<Rightarrow> (db, Failure 500 (''Failed to distribute prizes: '' @ e), [])
      | Returns k \<Rightarrow>
          (case db k of
             None \<Rightarrow> (db, Failure 404 ''Hackathon not found'', [])
           | Some hackathon \<Rightarrow>
               if organizer_id hackathon \<noteq> user_id req
                 then (db, Failure 403 ''Only the hackathon organizer can distribute prizes'', [])
               else if \<not> column_true (manually_ended hackathon)
                 then (db, Failure 400 ''Hackathon must be ended before distributing prizes'', [])
               else if amount_falsy env (funded_amount hackathon) \<or>
                       amount_le0 env (funded_amount hackathon)
                 then (db, Failure 400 ''Hackathon must be funded before distributing prizes'', [])
               else if (case winners_json hackathon of None \<Rightarrow> True | Some ws \<Rightarrow> length ws = 0)
                 then (db, Failure 400 ''Winners must be selected before distributing prizes'', [])
               else settle env (Call_distributePrizes hackathon_id) ''Failed to distribute prizes: ''
                      ''Prizes distributed successfully''
                      (\<lambda>db. db(k \<mapsto> hackathon\<lparr>prizes_distributed := Some True,
                                  prizes_distributed_at := Some (now env)\<rparr>))
                      db))"

text \<open>The four settlement commands and their handlers.\<close>

datatype command = End | Fund | SetWinners_command | Distribute

fun handle :: "'v runtime \<Rightarrow> command \<Rightarrow> 'v request \<Rightarrow> 'v projection \<Rightarrow> 'v reply" where
  "handle env End = post_end env"
| "handle env Fund = post_fund env"
| "handle env SetWinners_command = post_set_winners env"
| "handle env Distribute = post_distribute env"

fun is_failure :: "response \<Rightarrow> bool" where
  "is_failure (Failure code message) = True"
| "is_failure (Success message tx) = False"

fun throws :: "'a outcome \<Rightarrow> bool" where
  "throws (Throws e) = True"
| "throws (Returns x) = False"

text \<open>
  An example: the organizer 5 asks for hackathon 1, a row that is active and unfunded; the
  ledger's answer is a parameter.
\<close>

definition example_runtime :: "ledger_reply \<Rightarrow> int runtime" where
  "example_runtime reply =
     \<lparr>isNaN = (\<lambda>s. s = ''abc''), toString = (\<lambda>v. Returns ''1''),
      parseEther = (\<lambda>s. Returns (10 ^ 18)), parseFloat = (\<lambda>v. v),
      isAddress = (\<lambda>s. length s = 42), truthy = (\<lambda>v. v \<noteq> 0), gt0 = (\<lambda>v. 0 < v),
      le0 = (\<lambda>v. v \<le> 0), now = ''2025-01-01T00:00:00.000Z'',
      select_id = (\<lambda>s. if s = ''1'' then Returns 1 else Throws ''invalid input syntax''),
      update_error = None, ledger = (\<lambda>c. reply)\<rparr>"

definition example_row :: "int hackathon_row" where
  "example_row =
     \<lparr>organizer_id = 5, status = ''active'', manually_ended = None, manually_ended_at = None,
      funded_amount = None, funded_at = None, winners_json = None, prizes_distributed = None,
      prizes_distributed_at = None\<rparr>"

definition example_request :: "int request" where
  "example_request =
     \<lparr>id_param = ''1'', user_role = ''organizer'', user_id = 5, body_amount = 1,
      body_winners = None\<rparr>"

section \<open>Basic facts about the contract model\<close>

lemmas contract_defs =
  constructor_def execute_def rejected_def transact_def emitted_def fundHackathon_def
  setWinners_def endHackathon_def distributePrizes_def withdraw_def pause_def unpause_def
  receive_def onlyOrganizer_def whenNotPaused_def nonReentrant_def hackathonExists_def
  fundHackathon_body_def setWinners_body_def endHackathon_body_def distributePrizes_body_def
  withdraw_body_def fresh_def emit_def hackathon_update_def zero_Hackathon_def
  safeTransfer_def debited_def reaction_to_def winner_at_def checked_add_def checked_sub_def checked_mul_def MAX_UINT256_def
  removeActiveHackathon_def removeActive_from.simps winners_outer.simps winners_inner.simps
  all_accept_def organizer_reenters_def payouts_def Let_def

lemma and_then_Inr_iff: "and_then r f = Inr y \<longleftrightarrow> (\<exists>v. r = Inr v \<and> f v = Inr y)"
  by (cases r) (simp_all add: and_then_def)

lemma and_then_simps [simp]: "and_then (Inl e) f = Inl e" "and_then (Inr v) f = f v"
  by (simp_all add: and_then_def)

lemma and_then_cong:
  assumes "\<And>v. r = Inr v \<Longrightarrow> f v = g v"
  shows "and_then r f = and_then r g"
  using assms by (cases r) simp_all

lemma checked_Inr:
  "checked_add a b = Inr c \<longleftrightarrow> a + b \<le> MAX_UINT256 \<and> c = a + b"
  "checked_sub a b = Inr c \<longleftrightarrow> b \<le> a \<and> c = a - b"
  "checked_mul a b = Inr c \<longleftrightarrow> a * b \<le> MAX_UINT256 \<and> c = a * b"
  by (auto simp: checked_add_def checked_sub_def checked_mul_def)

lemma modifiers_Inr:
  "onlyOrganizer sender body m = Inr m' \<longleftrightarrow> sender = organizer (st m) \<and> body m = Inr m'"
  "whenNotPaused body m = Inr m' \<longleftrightarrow> \<not> paused (st m) \<and> body m = Inr m'"
  "hackathonExists hid body m = Inr m' \<longleftrightarrow> exists (hackathons (st m) hid) \<and> body m = Inr m'"
  "nonReentrant body m = Inr m' \<longleftrightarrow>
     \<not> entered (st m) \<and>
     (\<exists>m''. body (m\<lparr>st := (st m)\<lparr>entered := True\<rparr>\<rparr>) = Inr m'' \<and>
            m' = m''\<lparr>st := (st m'')\<lparr>entered := False\<rparr>\<rparr>)"
  by (auto simp: onlyOrganizer_def whenNotPaused_def hackathonExists_def nonReentrant_def
      and_then_Inr_iff)

lemma winner_at_Inr:
  "winner_at hid i m = Inr w \<longleftrightarrow>
     i < length (winners (hackathons (st m) hid)) \<and> w = winners (hackathons (st m) hid) ! i"
  by (auto simp: winner_at_def Let_def)

lemma preserved_refl [simp]: "preserved s s"
  by (simp add: preserved_def)

lemma preserved_trans: "preserved s s' \<Longrightarrow> preserved s' s'' \<Longrightarrow> preserved s s''"
  unfolding preserved_def by (intro conjI allI; metis)

lemma preserved_balance [simp]: "preserved s (s'\<lparr>balance := b\<rparr>) = preserved s s'"
  "preserved (s\<lparr>balance := b\<rparr>) s' = preserved s s'"
  by (simp_all add: preserved_def)

subsection \<open>The duplicate check of \<^verbatim>\<open>setWinners\<close>\<close>

lemma all_from:
  assumes "(j::nat) < n"
  shows "(\<forall>k. j \<le> k \<and> k < n \<longrightarrow> P k) \<longleftrightarrow> P j \<and> (\<forall>k. j + 1 \<le> k \<and> k < n \<longrightarrow> P k)"
proof
  assume a: "\<forall>k. j \<le> k \<and> k < n \<longrightarrow> P k"
  show "P j \<and> (\<forall>k. j + 1 \<le> k \<and> k < n \<longrightarrow> P k)"
  proof (intro conjI allI impI)
    from assms have "j \<le> j \<and> j < n" by simp
    with a show "P j" by blast
  next
    fix k
    assume "j + 1 \<le> k \<and> k < n"
    then have "j \<le> k \<and> k < n" by simp
    with a show "P k" by blast
  qed
next
  assume b: "P j \<and> (\<forall>k. j + 1 \<le> k \<and> k < n \<longrightarrow> P k)"
  show "\<forall>k. j \<le> k \<and> k < n \<longrightarrow> P k"
  proof (intro allI impI)
    fix k
    assume "j \<le> k \<and> k < n"
    then consider "k = j" | "j + 1 \<le> k" "k < n"
      by linarith
    then show "P k"
      using b by cases auto
  qed
qed

lemma winners_inner_Inr:
  "winners_inner i j ws = Inr u \<longleftrightarrow> (\<forall>k. j \<le> k \<and> k < length ws \<longrightarrow> ws ! i \<noteq> ws ! k)"
proof (induction i j ws rule: winners_inner.induct)
  case (1 i j ws)
  show ?case
  proof (cases "j < length ws")
    case True
    show ?thesis
    proof (cases "ws ! i = ws ! j")
      case eq: True
      with True show ?thesis
        by (subst winners_inner.simps) auto
    next
      case False
      with True 1 have "winners_inner i j ws = Inr u \<longleftrightarrow>
          (\<forall>k. j + 1 \<le> k \<and> k < length ws \<longrightarrow> ws ! i \<noteq> ws ! k)"
        by (subst winners_inner.simps) simp
      then show ?thesis
        using False by (simp add: all_from [OF True])
    qed
  next
    case False
    then show ?thesis
      by (subst winners_inner.simps) simp
  qed
qed

lemma winners_outer_Inr:
  "winners_outer i ws = Inr u \<longleftrightarrow>
     (\<forall>k. i \<le> k \<and> k < length ws \<longrightarrow>
        ws ! k \<noteq> 0 \<and> (\<forall>l. k + 1 \<le> l \<and> l < length ws \<longrightarrow> ws ! k \<noteq> ws ! l))"
proof (induction i ws rule: winners_outer.induct)
  case (1 i ws)
  show ?case
  proof (cases "i < length ws")
    case True
    show ?thesis
    proof (cases "ws ! i = 0")
      case z: True
      with True show ?thesis
        by (subst winners_outer.simps) auto
    next
      case False
      have "winners_outer i ws = Inr u \<longleftrightarrow>
          (\<forall>l. i + 1 \<le> l \<and> l < length ws \<longrightarrow> ws ! i \<noteq> ws ! l) \<and> winners_outer (i + 1) ws = Inr u"
        using True False
        by (subst winners_outer.simps) (auto simp: and_then_Inr_iff winners_inner_Inr)
      then show ?thesis
        using 1 True False by (simp add: all_from [OF True])
    qed
  next
    case False
    then show ?thesis
      by (subst winners_outer.simps) simp
  qed
qed

lemma winners_check:
  "winners_outer 0 ws = Inr u \<longleftrightarrow> 0 \<notin> set ws \<and> distinct ws"
proof -
  have "winners_outer 0 ws = Inr u \<longleftrightarrow>
      (\<forall>k<length ws. ws ! k \<noteq> 0) \<and> (\<forall>k l. k < l \<and> l < length ws \<longrightarrow> ws ! k \<noteq> ws ! l)"
    unfolding winners_outer_Inr by (auto simp: Suc_le_eq)
  moreover have "(\<forall>k<length ws. ws ! k \<noteq> 0) \<longleftrightarrow> 0 \<notin> set ws"
    by (auto simp: in_set_conv_nth)
  moreover have "(\<forall>k l. k < l \<and> l < length ws \<longrightarrow> ws ! k \<noteq> ws ! l) \<longleftrightarrow> distinct ws"
  proof
    assume a: "\<forall>k l. k < l \<and> l < length ws \<longrightarrow> ws ! k \<noteq> ws ! l"
    show "distinct ws"
      unfolding distinct_conv_nth
    proof (intro allI impI)
      fix i j
      assume "i < length ws" "j < length ws" "i \<noteq> j"
      then consider "i < j" | "j < i" by linarith
      then show "ws ! i \<noteq> ws ! j"
        using a \<open>i < length ws\<close> \<open>j < length ws\<close> by cases (auto dest: not_sym)
    qed
  next
    assume "distinct ws"
    then show "\<forall>k l. k < l \<and> l < length ws \<longrightarrow> ws ! k \<noteq> ws ! l"
      by (auto simp: distinct_conv_nth)
  qed
  ultimately show ?thesis by simp
qed

subsection \<open>Effects of the entry points\<close>

lemma fundHackathon_m:
  assumes "fundHackathon sender hid v m = Inr m'"
  shows "sender = organizer (st m)" "\<not> paused (st m)" "\<not> entered (st m)"
    "\<not> isFunded (hackathons (st m) hid)" "v > 0"
    "hackathons (st m') = (hackathons (st m))(hid := (hackathons (st m) hid)
                    \<lparr>totalFunding := v, isFunded := True, exists := True\<rparr>)"
    "activeHackathons (st m') = activeHackathons (st m) @ [hid]"
    "balance (st m') = balance (st m) + v"
    "organizer (st m') = organizer (st m)" "paused (st m') = paused (st m)"
    "entered (st m') = entered (st m)" "self (st m') = self (st m)"
    "events m' = events m @
       (if exists (hackathons (st m) hid) then [] else [HackathonCreated hid]) @ [Funded hid v]"
    "calls m' = calls m"
  using assms
  by (auto simp: fundHackathon_def fundHackathon_body_def modifiers_Inr emit_def
      hackathon_update_def Let_def split: if_splits)

lemma fundHackathon_succeeds:
  assumes "sender = organizer (st m)" "\<not> paused (st m)" "\<not> entered (st m)"
    "\<not> isFunded (hackathons (st m) hid)" "v > 0"
  shows "\<exists>m'. fundHackathon sender hid v m = Inr m'"
  using assms
  by (simp add: fundHackathon_def fundHackathon_body_def modifiers_Inr emit_def
      hackathon_update_def Let_def)

lemma setWinners_m:
  "setWinners sender hid ws m = Inr m' \<longleftrightarrow>
     sender = organizer (st m) \<and> \<not> paused (st m) \<and> exists (hackathons (st m) hid) \<and>
     isFunded (hackathons (st m) hid) \<and> \<not> prizesDistributed (hackathons (st m) hid) \<and>
     1 \<le> length ws \<and> length ws \<le> 3 \<and> 0 \<notin> set ws \<and> distinct ws \<and>
     m' = m\<lparr>st := (st m)\<lparr>hackathons := (hackathons (st m))
                 (hid := (hackathons (st m) hid)\<lparr>winners := ws\<rparr>)\<rparr>,
           events := events m @ [WinnersSet hid ws]\<rparr>"
  by (auto simp: setWinners_def setWinners_body_def modifiers_Inr emit_def
      hackathon_update_def Let_def and_then_Inr_iff winners_check)

lemma endHackathon_m:
  "endHackathon sender hid m = Inr m' \<longleftrightarrow>
     sender = organizer (st m) \<and> \<not> paused (st m) \<and> exists (hackathons (st m) hid) \<and>
     \<not> isEnded (hackathons (st m) hid) \<and>
     m' = m\<lparr>st := (st m)\<lparr>hackathons := (hackathons (st m))
                 (hid := (hackathons (st m) hid)\<lparr>isEnded := True\<rparr>)\<rparr>,
           events := events m @ [HackathonEnded hid]\<rparr>"
  by (auto simp: endHackathon_def endHackathon_body_def modifiers_Inr emit_def
      hackathon_update_def)

lemma pause_m:
  "pause sender m = Inr m' \<longleftrightarrow>
     sender = organizer (st m) \<and> \<not> paused (st m) \<and>
     m' = m\<lparr>st := (st m)\<lparr>paused := True\<rparr>, events := events m @ [Paused sender]\<rparr>"
  by (auto simp: pause_def modifiers_Inr emit_def)

lemma unpause_m:
  "unpause sender m = Inr m' \<longleftrightarrow>
     sender = organizer (st m) \<and> paused (st m) \<and>
     m' = m\<lparr>st := (st m)\<lparr>paused := False\<rparr>, events := events m @ [Unpaused sender]\<rparr>"
  by (auto simp: unpause_def modifiers_Inr emit_def)

lemma receive_m:
  "receive v m = Inr m' \<longleftrightarrow> m' = m\<lparr>st := (st m)\<lparr>balance := balance (st m) + v\<rparr>\<rparr>"
  by (auto simp: receive_def)

lemma guarded_m:
  assumes "entered (st m)"
  shows "isl (fundHackathon sender hid v m)"
    "isl (distributePrizes r callee sender hid m)"
    "isl (withdraw r callee sender m)"
  using assms
  by (simp_all add: fundHackathon_def distributePrizes_def withdraw_def onlyOrganizer_def
      whenNotPaused_def nonReentrant_def)

subsection \<open>Calls made during a transfer\<close>

lemma dispatch_entered:
  assumes "entered (st m)"
  shows "dispatch r1 callee sender c m = dispatch r2 callee sender c m"
  using assms
  by (cases c)
    (simp_all add: distributePrizes_def withdraw_def onlyOrganizer_def whenNotPaused_def
      nonReentrant_def)

lemma inner_Inr:
  assumes e: "entered (st m)" and d: "dispatch r callee sender c m = Inr m'"
  shows "preserved (st m) (st m')" "calls m' = calls m"
    "filter is_PrizeDistributed (events m') = filter is_PrizeDistributed (events m)"
    "sender \<noteq> organizer (st m) \<Longrightarrow>
       hackathons (st m') = hackathons (st m) \<and> paused (st m') = paused (st m) \<and>
       events m' = events m"
proof -
  have "preserved (st m) (st m') \<and> calls m' = calls m \<and>
    filter is_PrizeDistributed (events m') = filter is_PrizeDistributed (events m) \<and>
    (sender \<noteq> organizer (st m) \<longrightarrow>
       hackathons (st m') = hackathons (st m) \<and> paused (st m') = paused (st m) \<and>
       events m' = events m)"
  proof (cases c)
    case (FundHackathon hid v)
    with d guarded_m(1) [OF e, of sender hid v] show ?thesis by simp
  next
    case (SetWinners hid ws)
    with d have "setWinners sender hid ws m = Inr m'" by simp
    then show ?thesis
      unfolding setWinners_m by (auto simp: preserved_def)
  next
    case (DistributePrizes hid)
    with d guarded_m(2) [OF e, of r callee sender hid] show ?thesis by simp
  next
    case (EndHackathon hid)
    with d have "endHackathon sender hid m = Inr m'" by simp
    then show ?thesis
      unfolding endHackathon_m by (auto simp: preserved_def)
  next
    case Withdraw
    with d guarded_m(3) [OF e, of r callee sender] show ?thesis by simp
  next
    case Pause
    with d have "pause sender m = Inr m'" by simp
    then show ?thesis
      unfolding pause_m by (auto simp: preserved_def)
  next
    case Unpause
    with d have "unpause sender m = Inr m'" by simp
    then show ?thesis
      unfolding unpause_m by (auto simp: preserved_def)
  next
    case (Receive v)
    with d have "receive v m = Inr m'" by simp
    then show ?thesis
      unfolding receive_m by (auto simp: preserved_def)
  qed
  then show "preserved (st m) (st m')" "calls m' = calls m"
    "filter is_PrizeDistributed (events m') = filter is_PrizeDistributed (events m)"
    "sender \<noteq> organizer (st m) \<Longrightarrow>
       hackathons (st m') = hackathons (st m) \<and> paused (st m') = paused (st m) \<and>
       events m' = events m"
    by simp_all
qed

lemma preserved_entered: "preserved s s' \<Longrightarrow> entered s' = entered s"
  by (simp add: preserved_def)

lemma preserved_organizer: "preserved s s' \<Longrightarrow> organizer s' = organizer s"
  by (simp add: preserved_def)

lemma reenter_all_frame:
  assumes "entered (st m)"
  shows "preserved (st m) (st (reenter_all (dispatch r callee) inner m)) \<and>
    calls (reenter_all (dispatch r callee) inner m) = calls m \<and>
    filter is_PrizeDistributed (events (reenter_all (dispatch r callee) inner m))
      = filter is_PrizeDistributed (events m) \<and>
    ((\<forall>x \<in> set inner. fst x \<noteq> organizer (st m)) \<longrightarrow>
       hackathons (st (reenter_all (dispatch r callee) inner m)) = hackathons (st m) \<and>
       paused (st (reenter_all (dispatch r callee) inner m)) = paused (st m) \<and>
       events (reenter_all (dispatch r callee) inner m) = events m)"
  using assms
proof (induction inner arbitrary: m)
  case Nil
  then show ?case by simp
next
  case (Cons x inner)
  obtain sender c where x: "x = (sender, c)"
    by (cases x) auto
  define m1 where "m1 = (case dispatch r callee sender c m of Inl e \<Rightarrow> m | Inr m' \<Rightarrow> m')"
  have step: "preserved (st m) (st m1) \<and> calls m1 = calls m \<and>
    filter is_PrizeDistributed (events m1) = filter is_PrizeDistributed (events m) \<and>
    (sender \<noteq> organizer (st m) \<longrightarrow>
       hackathons (st m1) = hackathons (st m) \<and> paused (st m1) = paused (st m) \<and>
       events m1 = events m)"
  proof (cases "dispatch r callee sender c m")
    case (Inl e)
    then show ?thesis by (simp add: m1_def)
  next
    case (Inr m')
    from inner_Inr [OF Cons.prems Inr] show ?thesis
      by (simp add: m1_def Inr)
  qed
  then have p1: "preserved (st m) (st m1)"
    by blast
  have e1: "entered (st m1)" and o1: "organizer (st m1) = organizer (st m)"
    using Cons.prems preserved_entered [OF p1] preserved_organizer [OF p1] by simp_all
  note ih = Cons.IH [OF e1]
  have r: "reenter_all (dispatch r callee) (x # inner) m = reenter_all (dispatch r callee) inner m1"
    by (simp add: x m1_def)
  show ?case
    unfolding r using step ih o1 by (auto simp: x intro: preserved_trans)
qed

lemma reenter_all_depth:
  assumes "entered (st m)"
  shows "reenter_all (dispatch r1 callee) inner m = reenter_all (dispatch r2 callee) inner m"
  using assms
proof (induction inner arbitrary: m)
  case Nil
  then show ?case by simp
next
  case (Cons x inner)
  obtain sender c where x: "x = (sender, c)"
    by (cases x) auto
  define m1 where "m1 = (case dispatch r1 callee sender c m of Inl e \<Rightarrow> m | Inr m' \<Rightarrow> m')"
  have "preserved (st m) (st m1)"
    using reenter_all_frame [OF Cons.prems, of r1 callee "[x]"] by (simp add: x m1_def)
  then have "entered (st m1)"
    using Cons.prems by (simp add: preserved_entered)
  from Cons.IH [OF this] show ?case
    by (simp add: x m1_def dispatch_entered [OF Cons.prems, of r2 callee sender c r1])
qed

lemma safeTransfer_Inr:
  assumes e: "entered (st m)"
    and t: "safeTransfer (dispatch r cal) callee to amt hid m = Inr m'"
  shows "amt \<le> balance (st m)"
    and "calls m' = calls m @ [\<lparr>recipient = to, amount = amt, snapshot = debited (st m) to amt\<rparr>]"
    and "preserved (st m) (st m')"
    and "filter is_PrizeDistributed (events m') = filter is_PrizeDistributed (events m) @
           (if hid > 0 then [PrizeDistributed hid to amt] else [])"
    and "snd (reaction_to callee m to amt)"
    and "(\<forall>x \<in> set (fst (reaction_to callee m to amt)). fst x \<noteq> organizer (st m)) \<Longrightarrow>
           hackathons (st m') = hackathons (st m) \<and> paused (st m') = paused (st m) \<and>
           events m' = events m @ (if hid > 0 then [PrizeDistributed hid to amt] else [])"
    and "fst (reaction_to callee m to amt) = [] \<Longrightarrow> st m' = debited (st m) to amt"
proof -
  define m1 where "m1 = m\<lparr>st := debited (st m) to amt,
     calls := calls m @ [\<lparr>recipient = to, amount = amt, snapshot = debited (st m) to amt\<rparr>]\<rparr>"
  define m2 where "m2 = reenter_all (dispatch r cal) (fst (reaction_to callee m to amt)) m1"
  from t have a: "amt \<le> balance (st m)" and ok: "snd (reaction_to callee m to amt)"
    and m': "m' = (if hid > 0 then emit (PrizeDistributed hid to amt) m2 else m2)"
    by (auto simp: safeTransfer_def Let_def m1_def m2_def split: if_splits)
  have p1: "preserved (st m) (st m1)" and e1: "entered (st m1)"
    and o1: "organizer (st m1) = organizer (st m)"
    using e by (simp_all add: m1_def debited_def preserved_def)
  note f = reenter_all_frame [OF e1, of r cal "fst (reaction_to callee m to amt)", folded m2_def]
  show "amt \<le> balance (st m)" by (fact a)
  show "snd (reaction_to callee m to amt)" by (fact ok)
  show "calls m' = calls m @ [\<lparr>recipient = to, amount = amt, snapshot = debited (st m) to amt\<rparr>]"
    using f by (simp add: m' emit_def m1_def)
  show "preserved (st m) (st m')"
    using f p1 by (auto simp: m' emit_def intro: preserved_trans)
  show "filter is_PrizeDistributed (events m') = filter is_PrizeDistributed (events m) @
           (if hid > 0 then [PrizeDistributed hid to amt] else [])"
    using f by (simp add: m' emit_def m1_def)
  show "hackathons (st m') = hackathons (st m) \<and> paused (st m') = paused (st m) \<and>
           events m' = events m @ (if hid > 0 then [PrizeDistributed hid to amt] else [])"
    if "\<forall>x \<in> set (fst (reaction_to callee m to amt)). fst x \<noteq> organizer (st m)"
    using f that o1 by (simp add: m' emit_def m1_def debited_def)
  show "st m' = debited (st m) to amt" if "fst (reaction_to callee m to amt) = []"
    using that by (simp add: m' emit_def m2_def m1_def)
qed

lemma safeTransfer_depth:
  assumes "entered (st m)"
  shows "safeTransfer (dispatch r1 cal) callee to amt hid m
       = safeTransfer (dispatch r2 cal) callee to amt hid m"
proof -
  have "entered (st (m\<lparr>st := debited (st m) to amt,
     calls := calls m @ [\<lparr>recipient = to, amount = amt, snapshot = debited (st m) to amt\<rparr>]\<rparr>))"
    using assms by (simp add: debited_def)
  from reenter_all_depth [OF this, of r1 cal _ r2] show ?thesis
    by (simp add: safeTransfer_def Let_def)
qed

lemma silent_reaction:
  "organizer_silent callee org \<Longrightarrow> \<forall>x \<in> set (fst (reaction_to callee m to amt)). fst x \<noteq> org"
  by (simp add: organizer_silent_def reaction_to_def)

lemma preserved_debited [simp]: "preserved s (debited s' to amt) = preserved s s'"
  by (simp add: debited_def)

lemma entered_debited [simp]: "entered (debited s to amt) = entered s"
  by (simp add: debited_def)

subsection \<open>What a successful distribution consists of\<close>

lemma body_pre:
  assumes "distributePrizes_body r callee hid m = Inr m'"
  shows "isFunded (hackathons (st m) hid)" "winners (hackathons (st m) hid) \<noteq> []"
    "\<not> prizesDistributed (hackathons (st m) hid)" "isEnded (hackathons (st m) hid)"
    "totalFunding (hackathons (st m) hid) \<le> balance (st m)"
  using assms by (auto simp: distributePrizes_body_def Let_def split: if_splits)

lemma body_3:
  assumes "distributePrizes_body r callee hid m = Inr m'"
    and "length (winners (hackathons (st m) hid)) = 3"
  shows "\<exists>m1 m2 m3.
      safeTransfer r callee (winners (hackathons (st m) hid) ! 0)
        (totalFunding (hackathons (st m) hid) * 50 div 100) hid m = Inr m1 \<and>
      1 < length (winners (hackathons (st m1) hid)) \<and>
      safeTransfer r callee (winners (hackathons (st m1) hid) ! 1)
        (totalFunding (hackathons (st m) hid) * 30 div 100) hid m1 = Inr m2 \<and>
      2 < length (winners (hackathons (st m2) hid)) \<and>
      safeTransfer r callee (winners (hackathons (st m2) hid) ! 2)
        (totalFunding (hackathons (st m) hid) - totalFunding (hackathons (st m) hid) * 50 div 100
           - totalFunding (hackathons (st m) hid) * 30 div 100) hid m2 = Inr m3 \<and>
      m' = commit hid m3"
  using assms
  by (auto simp: distributePrizes_body_def Let_def and_then_Inr_iff checked_Inr winner_at_Inr
      commit_def split: if_splits)

lemma body_2:
  assumes "distributePrizes_body r callee hid m = Inr m'"
    and "length (winners (hackathons (st m) hid)) = 2"
  shows "\<exists>m1 m2.
      safeTransfer r callee (winners (hackathons (st m) hid) ! 0)
        (totalFunding (hackathons (st m) hid) * 70 div 100) hid m = Inr m1 \<and>
      1 < length (winners (hackathons (st m1) hid)) \<and>
      safeTransfer r callee (winners (hackathons (st m1) hid) ! 1)
        (totalFunding (hackathons (st m) hid) - totalFunding (hackathons (st m) hid) * 70 div 100)
        hid m1 = Inr m2 \<and>
      m' = commit hid m2"
  using assms
  by (auto simp: distributePrizes_body_def Let_def and_then_Inr_iff checked_Inr winner_at_Inr
      commit_def split: if_splits)

lemma body_1:
  assumes "distributePrizes_body r callee hid m = Inr m'"
    and "length (winners (hackathons (st m) hid)) \<noteq> 2"
    and "length (winners (hackathons (st m) hid)) \<noteq> 3"
  shows "\<exists>m1.
      safeTransfer r callee (winners (hackathons (st m) hid) ! 0)
        (totalFunding (hackathons (st m) hid)) hid m = Inr m1 \<and>
      m' = commit hid m1"
  using assms
  by (auto simp: distributePrizes_body_def Let_def and_then_Inr_iff checked_Inr winner_at_Inr
      commit_def split: if_splits)

lemma list_of_length:
  "length xs = 1 \<Longrightarrow> xs = [xs ! 0]"
  "length xs = 2 \<Longrightarrow> xs = [xs ! 0, xs ! 1]"
  "length xs = 3 \<Longrightarrow> xs = [xs ! 0, xs ! 1, xs ! 2]"
  by (cases xs; cases "tl xs"; cases "tl (tl xs)"; cases "tl (tl (tl xs))"; simp)+

lemma body_trace:
  assumes e: "entered (st m)"
    and body: "distributePrizes_body (dispatch r0 cal) callee hid m = Inr m'"
    and fresh: "calls m = []"
    and ws: "ws = winners (hackathons (st m) hid)"
    and tf: "tf = totalFunding (hackathons (st m) hid)"
  shows "map amount (calls m') =
        (if length ws = 3 then [tf * 50 div 100, tf * 30 div 100, tf - tf * 50 div 100 - tf * 30 div 100]
         else if length ws = 2 then [tf * 70 div 100, tf - tf * 70 div 100] else [tf]) \<and>
      (\<forall>c \<in> set (calls m'). entered (snapshot c) \<and> preserved (st m) (snapshot c)) \<and>
      filter is_PrizeDistributed (events m') = filter is_PrizeDistributed (events m) @
        (if hid > 0 then map (\<lambda>c. PrizeDistributed hid (recipient c) (amount c)) (calls m') else []) \<and>
      (\<exists>m3. m' = commit hid m3 \<and> preserved (st m) (st m3)) \<and>
      (organizer_silent callee (organizer (st m)) \<longrightarrow>
         events m' = events m @
           (if hid > 0 then map (\<lambda>c. PrizeDistributed hid (recipient c) (amount c)) (calls m') else []) \<and>
         (length ws \<le> 3 \<longrightarrow> map recipient (calls m') = ws) \<and>
         (\<exists>m3. m' = commit hid m3 \<and> hackathons (st m3) = hackathons (st m) \<and>
            paused (st m3) = paused (st m)))"
proof -
  have ne: "ws \<noteq> []"
    using body_pre(2) [OF body] by (simp add: ws)
  consider "length ws = 3" | "length ws = 2" | "length ws \<noteq> 2" "length ws \<noteq> 3"
    by blast
  then show ?thesis
  proof cases
    case 1
    from body_3 [OF body 1 [unfolded ws]] obtain m1 m2 m3 where
      t1: "safeTransfer (dispatch r0 cal) callee (ws ! 0) (tf * 50 div 100) hid m = Inr m1" and
      t2: "safeTransfer (dispatch r0 cal) callee (winners (hackathons (st m1) hid) ! 1)
             (tf * 30 div 100) hid m1 = Inr m2" and
      t3: "safeTransfer (dispatch r0 cal) callee (winners (hackathons (st m2) hid) ! 2)
             (tf - tf * 50 div 100 - tf * 30 div 100) hid m2 = Inr m3" and
      m': "m' = commit hid m3"
      unfolding ws tf by blast
    note f1 = safeTransfer_Inr [OF e t1]
    have e1: "entered (st m1)"
      using e preserved_entered [OF f1(3)] by simp
    note f2 = safeTransfer_Inr [OF e1 t2]
    have e2: "entered (st m2)"
      using e1 preserved_entered [OF f2(3)] by simp
    note f3 = safeTransfer_Inr [OF e2 t3]
    have p2: "preserved (st m) (st m2)"
      using f1(3) f2(3) by (rule preserved_trans)
    have p3: "preserved (st m) (st m3)"
      using p2 f3(3) by (rule preserved_trans)
    have c: "calls m' = [\<lparr>recipient = ws ! 0, amount = tf * 50 div 100,
                           snapshot = debited (st m) (ws ! 0) (tf * 50 div 100)\<rparr>,
        \<lparr>recipient = winners (hackathons (st m1) hid) ! 1, amount = tf * 30 div 100,
          snapshot = debited (st m1) (winners (hackathons (st m1) hid) ! 1) (tf * 30 div 100)\<rparr>,
        \<lparr>recipient = winners (hackathons (st m2) hid) ! 2,
          amount = tf - tf * 50 div 100 - tf * 30 div 100,
          snapshot = debited (st m2) (winners (hackathons (st m2) hid) ! 2)
            (tf - tf * 50 div 100 - tf * 30 div 100)\<rparr>]"
      by (simp add: m' commit_def f1(2) f2(2) f3(2) fresh)
    have silent: "events m' = events m @
           (if hid > 0 then map (\<lambda>c. PrizeDistributed hid (recipient c) (amount c)) (calls m') else []) \<and>
         (length ws \<le> 3 \<longrightarrow> map recipient (calls m') = ws) \<and>
         (\<exists>m3. m' = commit hid m3 \<and> hackathons (st m3) = hackathons (st m) \<and>
            paused (st m3) = paused (st m))"
      if q: "organizer_silent callee (organizer (st m))"
    proof -
      have o1: "organizer (st m1) = organizer (st m)" and o2: "organizer (st m2) = organizer (st m)"
        using preserved_organizer [OF f1(3)] preserved_organizer [OF p2] by simp_all
      note g1 = f1(6) [OF silent_reaction [OF q]]
      note g2 = f2(6) [OF silent_reaction [OF q [folded o1]]]
      note g3 = f3(6) [OF silent_reaction [OF q [folded o2]]]
      have "map recipient (calls m') = [ws ! 0, ws ! 1, ws ! 2]"
        using g1 g2 by (simp add: c ws)
      with list_of_length(3) [OF 1] have "map recipient (calls m') = ws"
        by simp
      moreover have "events m' = events m @
           (if hid > 0 then map (\<lambda>c. PrizeDistributed hid (recipient c) (amount c)) (calls m') else [])"
        using g1 g2 g3 by (simp add: c) (simp add: m' commit_def)
      moreover have "hackathons (st m3) = hackathons (st m) \<and> paused (st m3) = paused (st m)"
        using g1 g2 g3 by simp
      ultimately show ?thesis
        using m' by blast
    qed
    have "filter is_PrizeDistributed (events m') = filter is_PrizeDistributed (events m) @
        (if hid > 0 then map (\<lambda>c. PrizeDistributed hid (recipient c) (amount c)) (calls m') else [])"
      using f1(4) f2(4) f3(4) by (simp add: c) (simp add: m' commit_def)
    moreover have "\<forall>c \<in> set (calls m'). entered (snapshot c) \<and> preserved (st m) (snapshot c)"
      using e e1 e2 f1(3) p2 by (simp add: c)
    ultimately show ?thesis
      using 1 c p3 m' silent by auto
  next
    case 2
    from body_2 [OF body 2 [unfolded ws]] obtain m1 m2 where
      t1: "safeTransfer (dispatch r0 cal) callee (ws ! 0) (tf * 70 div 100) hid m = Inr m1" and
      t2: "safeTransfer (dispatch r0 cal) callee (winners (hackathons (st m1) hid) ! 1)
             (tf - tf * 70 div 100) hid m1 = Inr m2" and
      m': "m' = commit hid m2"
      unfolding ws tf by blast
    note f1 = safeTransfer_Inr [OF e t1]
    have e1: "entered (st m1)"
      using e preserved_entered [OF f1(3)] by simp
    note f2 = safeTransfer_Inr [OF e1 t2]
    have p2: "preserved (st m) (st m2)"
      using f1(3) f2(3) by (rule preserved_trans)
    have c: "calls m' = [\<lparr>recipient = ws ! 0, amount = tf * 70 div 100,
                           snapshot = debited (st m) (ws ! 0) (tf * 70 div 100)\<rparr>,
        \<lparr>recipient = winners (hackathons (st m1) hid) ! 1, amount = tf - tf * 70 div 100,
          snapshot = debited (st m1) (winners (hackathons (st m1) hid) ! 1)
            (tf - tf * 70 div 100)\<rparr>]"
      by (simp add: m' commit_def f1(2) f2(2) fresh)
    have silent: "events m' = events m @
           (if hid > 0 then map (\<lambda>c. PrizeDistributed hid (recipient c) (amount c)) (calls m') else []) \<and>
         (length ws \<le> 3 \<longrightarrow> map recipient (calls m') = ws) \<and>
         (\<exists>m3. m' = commit hid m3 \<and> hackathons (st m3) = hackathons (st m) \<and>
            paused (st m3) = paused (st m))"
      if q: "organizer_silent callee (organizer (st m))"
    proof -
      have o1: "organizer (st m1) = organizer (st m)"
        using preserved_organizer [OF f1(3)] by simp
      note g1 = f1(6) [OF silent_reaction [OF q]]
      note g2 = f2(6) [OF silent_reaction [OF q [folded o1]]]
      have "map recipient (calls m') = [ws ! 0, ws ! 1]"
        using g1 by (simp add: c ws)
      with list_of_length(2) [OF 2] have "map recipient (calls m') = ws"
        by simp
      moreover have "events m' = events m @
           (if hid > 0 then map (\<lambda>c. PrizeDistributed hid (recipient c) (amount c)) (calls m') else [])"
        using g1 g2 by (simp add: c) (simp add: m' commit_def)
      moreover have "hackathons (st m2) = hackathons (st m) \<and> paused (st m2) = paused (st m)"
        using g1 g2 by simp
      ultimately show ?thesis
        using m' by blast
    qed
    have "filter is_PrizeDistributed (events m') = filter is_PrizeDistributed (events m) @
        (if hid > 0 then map (\<lambda>c. PrizeDistributed hid (recipient c) (amount c)) (calls m') else [])"
      using f1(4) f2(4) by (simp add: c) (simp add: m' commit_def)
    moreover have "\<forall>c \<in> set (calls m'). entered (snapshot c) \<and> preserved (st m) (snapshot c)"
      using e e1 f1(3) by (simp add: c)
    ultimately show ?thesis
      using 2 c p2 m' silent by auto
  next
    case 3
    from body_1 [OF body 3 [unfolded ws]] obtain m1 where
      t1: "safeTransfer (dispatch r0 cal) callee (ws ! 0) tf hid m = Inr m1" and
      m': "m' = commit hid m1"
      unfolding ws tf by blast
    note f1 = safeTransfer_Inr [OF e t1]
    have c: "calls m' = [\<lparr>recipient = ws ! 0, amount = tf, snapshot = debited (st m) (ws ! 0) tf\<rparr>]"
      by (simp add: m' commit_def f1(2) fresh)
    have silent: "events m' = events m @
           (if hid > 0 then map (\<lambda>c. PrizeDistributed hid (recipient c) (amount c)) (calls m') else []) \<and>
         (length ws \<le> 3 \<longrightarrow> map recipient (calls m') = ws) \<and>
         (\<exists>m3. m' = commit hid m3 \<and> hackathons (st m3) = hackathons (st m) \<and>
            paused (st m3) = paused (st m))"
      if q: "organizer_silent callee (organizer (st m))"
    proof -
      note g1 = f1(6) [OF silent_reaction [OF q]]
      have "length ws \<le> 3 \<longrightarrow> map recipient (calls m') = ws"
      proof
        assume "length ws \<le> 3"
        moreover from ne have "length ws \<noteq> 0"
          by simp
        ultimately have "length ws = 1"
          using 3 by linarith
        from list_of_length(1) [OF this] show "map recipient (calls m') = ws"
          by (simp add: c)
      qed
      moreover have "events m' = events m @
           (if hid > 0 then map (\<lambda>c. PrizeDistributed hid (recipient c) (amount c)) (calls m') else [])"
        using g1 by (simp add: c) (simp add: m' commit_def)
      moreover have "hackathons (st m1) = hackathons (st m) \<and> paused (st m1) = paused (st m)"
        using g1 by simp
      ultimately show ?thesis
        using m' by blast
    qed
    have "filter is_PrizeDistributed (events m') = filter is_PrizeDistributed (events m) @
        (if hid > 0 then map (\<lambda>c. PrizeDistributed hid (recipient c) (amount c)) (calls m') else [])"
      using f1(4) by (simp add: c) (simp add: m' commit_def)
    moreover have "\<forall>c \<in> set (calls m'). entered (snapshot c) \<and> preserved (st m) (snapshot c)"
      using e by (simp add: c)
    ultimately show ?thesis
      using 3 c f1(3) m' silent by auto
  qed
qed

subsection \<open>Effects of the transactions\<close>

lemma execute_simps:
  "execute callee sender (FundHackathon hid v) s = fundHackathon sender hid v (fresh s)"
  "execute callee sender (SetWinners hid ws) s = setWinners sender hid ws (fresh s)"
  "execute callee sender (DistributePrizes hid) s =
     distributePrizes (dispatch rejected callee) callee sender hid (fresh s)"
  "execute callee sender (EndHackathon hid) s = endHackathon sender hid (fresh s)"
  "execute callee sender Withdraw s = withdraw (dispatch rejected callee) callee sender (fresh s)"
  "execute callee sender Pause s = pause sender (fresh s)"
  "execute callee sender Unpause s = unpause sender (fresh s)"
  "execute callee sender (Receive v) s = receive v (fresh s)"
  by (simp_all add: execute_def)

lemma fund_Inr:
  assumes "execute callee sender (FundHackathon hid v) s = Inr m"
  shows "sender = organizer s" "\<not> paused s" "\<not> entered s" "\<not> isFunded (hackathons s hid)" "v > 0"
    "hackathons (st m) = (hackathons s)(hid := (hackathons s hid)
                    \<lparr>totalFunding := v, isFunded := True, exists := True\<rparr>)"
    "activeHackathons (st m) = activeHackathons s @ [hid]"
    "balance (st m) = balance s + v"
    "organizer (st m) = organizer s" "paused (st m) = paused s" "entered (st m) = entered s"
    "self (st m) = self s"
    "events m = (if exists (hackathons s hid) then [] else [HackathonCreated hid]) @ [Funded hid v]"
    "calls m = []"
  using fundHackathon_m [OF assms [unfolded execute_simps]] by (simp_all add: fresh_def)

lemma fund_succeeds:
  assumes "sender = organizer s" "\<not> paused s" "\<not> entered s" "\<not> isFunded (hackathons s hid)" "v > 0"
  shows "\<exists>m. execute callee sender (FundHackathon hid v) s = Inr m"
  unfolding execute_simps using assms by (intro fundHackathon_succeeds) (simp_all add: fresh_def)

lemma setWinners_Inr:
  "execute callee sender (SetWinners hid ws) s = Inr m \<longleftrightarrow>
     sender = organizer s \<and> \<not> paused s \<and> exists (hackathons s hid) \<and>
     isFunded (hackathons s hid) \<and> \<not> prizesDistributed (hackathons s hid) \<and>
     1 \<le> length ws \<and> length ws \<le> 3 \<and> 0 \<notin> set ws \<and> distinct ws \<and>
     m = \<lparr>st = s\<lparr>hackathons := (hackathons s)(hid := (hackathons s hid)\<lparr>winners := ws\<rparr>)\<rparr>,
          events = [WinnersSet hid ws], calls = []\<rparr>"
  unfolding execute_simps setWinners_m by (auto simp: fresh_def)

lemma endHackathon_Inr:
  "execute callee sender (EndHackathon hid) s = Inr m \<longleftrightarrow>
     sender = organizer s \<and> \<not> paused s \<and> exists (hackathons s hid) \<and>
     \<not> isEnded (hackathons s hid) \<and>
     m = \<lparr>st = s\<lparr>hackathons := (hackathons s)(hid := (hackathons s hid)\<lparr>isEnded := True\<rparr>)\<rparr>,
          events = [HackathonEnded hid], calls = []\<rparr>"
  unfolding execute_simps endHackathon_m by (auto simp: fresh_def)

lemma pause_Inr:
  "execute callee sender Pause s = Inr m \<longleftrightarrow>
     sender = organizer s \<and> \<not> paused s \<and>
     m = \<lparr>st = s\<lparr>paused := True\<rparr>, events = [Paused sender], calls = []\<rparr>"
  unfolding execute_simps pause_m by (auto simp: fresh_def)

lemma unpause_Inr:
  "execute callee sender Unpause s = Inr m \<longleftrightarrow>
     sender = organizer s \<and> paused s \<and>
     m = \<lparr>st = s\<lparr>paused := False\<rparr>, events = [Unpaused sender], calls = []\<rparr>"
  unfolding execute_simps unpause_m by (auto simp: fresh_def)

lemma receive_Inr:
  "execute callee sender (Receive v) s = Inr m \<longleftrightarrow>
     m = \<lparr>st = s\<lparr>balance := balance s + v\<rparr>, events = [], calls = []\<rparr>"
  unfolding execute_simps receive_m by (auto simp: fresh_def)

lemma distributePrizes_Inr:
  "distributePrizes r callee sender hid m = Inr m' \<longleftrightarrow>
     sender = organizer (st m) \<and> \<not> paused (st m) \<and> \<not> entered (st m) \<and>
     exists (hackathons (st m) hid) \<and>
     (\<exists>m''. distributePrizes_body r callee hid (m\<lparr>st := (st m)\<lparr>entered := True\<rparr>\<rparr>) = Inr m'' \<and>
            m' = m''\<lparr>st := (st m'')\<lparr>entered := False\<rparr>\<rparr>)"
  by (auto simp: distributePrizes_def modifiers_Inr)

lemma payouts_simps [simp]:
  "payouts (m\<lparr>st := s\<rparr>) = payouts m" "payouts (commit hid m) = payouts m"
  by (simp_all add: payouts_def commit_def)

lemma distribute_Inr:
  assumes "execute callee sender (DistributePrizes hid) s = Inr m"
  shows "sender = organizer s" "\<not> paused s" "\<not> entered s" "exists (hackathons s hid)"
    "isFunded (hackathons s hid)" "winners (hackathons s hid) \<noteq> []"
    "\<not> prizesDistributed (hackathons s hid)" "isEnded (hackathons s hid)"
    "totalFunding (hackathons s hid) \<le> balance s"
    "activeHackathons (st m) = removeActive_from 0 hid (activeHackathons s)"
    "organizer (st m) = organizer s" "\<not> entered (st m)" "self (st m) = self s"
    "\<And>i. totalFunding (hackathons (st m) i) = totalFunding (hackathons s i) \<and>
          isFunded (hackathons (st m) i) = isFunded (hackathons s i) \<and>
          exists (hackathons (st m) i) = exists (hackathons s i) \<and>
          prizesDistributed (hackathons (st m) i)
            = (i = hid \<or> prizesDistributed (hackathons s i)) \<and>
          (winners (hackathons (st m) i) = winners (hackathons s i) \<or>
           length (winners (hackathons (st m) i)) \<le> 3)"
proof -
  define m0 where "m0 = (fresh s)\<lparr>st := s\<lparr>entered := True\<rparr>\<rparr>"
  from assms obtain m'' where
    pre: "sender = organizer s" "\<not> paused s" "\<not> entered s" "exists (hackathons s hid)" and
    body: "distributePrizes_body (dispatch rejected callee) callee hid m0 = Inr m''" and
    m: "m = m''\<lparr>st := (st m'')\<lparr>entered := False\<rparr>\<rparr>"
    by (auto simp: execute_simps distributePrizes_Inr fresh_def m0_def)
  show "sender = organizer s" "\<not> paused s" "\<not> entered s" "exists (hackathons s hid)"
    by (fact pre)+
  from body_pre [OF body] show "isFunded (hackathons s hid)" "winners (hackathons s hid) \<noteq> []"
    "\<not> prizesDistributed (hackathons s hid)" "isEnded (hackathons s hid)"
    "totalFunding (hackathons s hid) \<le> balance s"
    by (simp_all add: fresh_def m0_def)
  have e: "entered (st m0)" and c: "calls m0 = []"
    by (simp_all add: m0_def fresh_def)
  from body_trace [OF e body c refl refl] obtain m3 where
    m3: "m'' = commit hid m3" "preserved (st m0) (st m3)"
    by blast
  have s0: "organizer (st m0) = organizer s" "self (st m0) = self s"
    "activeHackathons (st m0) = activeHackathons s" "hackathons (st m0) = hackathons s"
    by (simp_all add: m0_def fresh_def)
  show "activeHackathons (st m) = removeActive_from 0 hid (activeHackathons s)"
    "organizer (st m) = organizer s" "\<not> entered (st m)" "self (st m) = self s"
    using m3(2) s0 by (simp_all add: m m3(1) commit_def removeActiveHackathon_def
        hackathon_update_def preserved_def)
  show "totalFunding (hackathons (st m) i) = totalFunding (hackathons s i) \<and>
          isFunded (hackathons (st m) i) = isFunded (hackathons s i) \<and>
          exists (hackathons (st m) i) = exists (hackathons s i) \<and>
          prizesDistributed (hackathons (st m) i)
            = (i = hid \<or> prizesDistributed (hackathons s i)) \<and>
          (winners (hackathons (st m) i) = winners (hackathons s i) \<or>
           length (winners (hackathons (st m) i)) \<le> 3)" for i
    using m3(2) s0 by (simp add: m m3(1) commit_def removeActiveHackathon_def
        hackathon_update_def preserved_def)
qed


lemma withdraw_Inr:
  assumes "execute callee sender Withdraw s = Inr m"
  shows "sender = organizer s" "\<not> paused s" "\<not> entered s" "activeHackathons s = []"
    "balance s > 0"
    "snd (reaction_to callee ((fresh s)\<lparr>st := s\<lparr>entered := True\<rparr>\<rparr>) (organizer s) (balance s))"
    "calls m = [\<lparr>recipient = organizer s, amount = balance s,
                 snapshot = debited (s\<lparr>entered := True\<rparr>) (organizer s) (balance s)\<rparr>]"
    "preserved s (st m)"
    "events m \<noteq> [] \<and> last (events m) = Withdrawn (organizer s) (balance s)"
    "filter is_PrizeDistributed (events m) = []"
    "fst (reaction_to callee ((fresh s)\<lparr>st := s\<lparr>entered := True\<rparr>\<rparr>) (organizer s) (balance s)) = []
       \<Longrightarrow> st m = debited s (organizer s) (balance s) \<and>
           events m = [Withdrawn (organizer s) (balance s)]"
proof -
  define m0 where "m0 = (fresh s)\<lparr>st := s\<lparr>entered := True\<rparr>\<rparr>"
  from assms obtain m1 where
    pre: "sender = organizer s" "\<not> paused s" "\<not> entered s" "activeHackathons s = []"
      "balance s > 0" and
    t: "safeTransfer (dispatch rejected callee) callee (organizer s) (balance s) 0 m0 = Inr m1" and
    m: "m = (emit (Withdrawn (organizer (st m1)) (balance s)) m1)
            \<lparr>st := (st m1)\<lparr>entered := False\<rparr>\<rparr>"
    by (auto simp: execute_simps withdraw_def withdraw_body_def modifiers_Inr fresh_def m0_def
        Let_def and_then_Inr_iff emit_def split: if_splits)
  have e: "entered (st m0)" and s0: "st m0 = s\<lparr>entered := True\<rparr>" "calls m0 = []" "events m0 = []"
    by (simp_all add: m0_def fresh_def)
  note f = safeTransfer_Inr [OF e t]
  have o: "organizer (st m1) = organizer s"
    using preserved_organizer [OF f(3)] by (simp add: s0)
  show "sender = organizer s" "\<not> paused s" "\<not> entered s" "activeHackathons s = []"
    "balance s > 0"
    by (fact pre)+
  show "snd (reaction_to callee ((fresh s)\<lparr>st := s\<lparr>entered := True\<rparr>\<rparr>) (organizer s) (balance s))"
    using f(5) by (simp add: m0_def)
  show "calls m = [\<lparr>recipient = organizer s, amount = balance s,
                 snapshot = debited (s\<lparr>entered := True\<rparr>) (organizer s) (balance s)\<rparr>]"
    using f(2) by (simp add: m emit_def s0)
  show "preserved s (st m)"
    using f(3) pre(3) by (simp add: m emit_def s0 preserved_def)
  show "events m \<noteq> [] \<and> last (events m) = Withdrawn (organizer s) (balance s)"
    by (simp add: m emit_def o)
  show "filter is_PrizeDistributed (events m) = []"
    using f(4) by (simp add: m emit_def s0)
  show "st m = debited s (organizer s) (balance s) \<and>
           events m = [Withdrawn (organizer s) (balance s)]"
    if "fst (reaction_to callee ((fresh s)\<lparr>st := s\<lparr>entered := True\<rparr>\<rparr>) (organizer s) (balance s)) = []"
  proof -
    from that have n: "fst (reaction_to callee m0 (organizer s) (balance s)) = []"
      by (simp add: m0_def)
    from f(7) [OF n] f(6) n have "st m1 = debited (st m0) (organizer s) (balance s)"
      "events m1 = events m0"
      by simp_all
    then show ?thesis
      using pre(3) by (simp add: m emit_def s0 o debited_def)
  qed
qed

lemma withdraw_succeeds:
  assumes "sender = organizer s" "\<not> paused s" "\<not> entered s" "activeHackathons s = []"
    "balance s > 0"
    "snd (reaction_to callee ((fresh s)\<lparr>st := s\<lparr>entered := True\<rparr>\<rparr>) (organizer s) (balance s))"
  shows "\<exists>m. execute callee sender Withdraw s = Inr m"
  using assms
  by (auto simp: execute_simps withdraw_def withdraw_body_def modifiers_Inr fresh_def emit_def
      Let_def and_then_Inr_iff safeTransfer_def)

subsection \<open>Two levels of calls are enough\<close>

lemma body_depth:
  assumes e: "entered (st m)"
  shows "distributePrizes_body (dispatch r1 cal) callee hid m
       = distributePrizes_body (dispatch r2 cal) callee hid m"
proof -
  have step: "and_then (safeTransfer (dispatch r1 cal) callee to amt hid m') f
       = and_then (safeTransfer (dispatch r2 cal) callee to amt hid m') g"
    if "entered (st m')" "\<And>m''. entered (st m'') \<Longrightarrow> f m'' = g m''"
    for to amt m' and f g :: "machine \<Rightarrow> error + machine \<times> nat"
  proof -
    have "f m'' = g m''"
      if "safeTransfer (dispatch r2 cal) callee to amt hid m' = Inr m''" for m''
      using safeTransfer_Inr(3) [OF \<open>entered (st m')\<close> that] \<open>entered (st m')\<close>
      by (intro \<open>\<And>m''. entered (st m'') \<Longrightarrow> f m'' = g m''\<close>) (simp add: preserved_entered)
    then show ?thesis
      unfolding safeTransfer_depth [OF \<open>entered (st m')\<close>, of r1 cal callee to amt hid r2]
      by (rule and_then_cong)
  qed
  have pure: "and_then x f = and_then x g" if "\<And>v. f v = g v"
    for x :: "error + nat" and f g :: "nat \<Rightarrow> error + machine \<times> nat"
    using that by (intro and_then_cong)
  show ?thesis
    unfolding distributePrizes_body_def Let_def
    apply (rule if_cong [OF refl refl])+
    apply (rule arg_cong2 [where f = and_then, OF _ refl])
    apply (rule if_cong [OF refl])
     apply (rule pure, rule pure, rule pure, rule pure, rule pure)
     apply (rule step, rule e)
     apply (rule pure, rule pure)
     apply (rule step, assumption)
     apply (rule pure, rule pure)
     apply (rule step, assumption)
     apply (rule refl)
    apply (rule if_cong [OF refl])
     apply (rule pure, rule pure, rule pure)
     apply (rule step, rule e)
     apply (rule pure, rule pure)
     apply (rule step, assumption)
     apply (rule refl)
    apply (rule pure)
    apply (rule step, rule e)
    apply (rule refl)
    done
qed

lemma distributePrizes_depth:
  "distributePrizes (dispatch r1 cal) callee sender hid m
     = distributePrizes (dispatch r2 cal) callee sender hid m"
proof -
  have "entered (st (m\<lparr>st := (st m)\<lparr>entered := True\<rparr>\<rparr>))"
    by simp
  from body_depth [OF this, of r1 cal callee hid r2] show ?thesis
    by (simp add: distributePrizes_def onlyOrganizer_def whenNotPaused_def nonReentrant_def
        hackathonExists_def)
qed

lemma withdraw_depth:
  "withdraw (dispatch r1 cal) callee sender m = withdraw (dispatch r2 cal) callee sender m"
proof -
  have "entered (st (m\<lparr>st := (st m)\<lparr>entered := True\<rparr>\<rparr>))"
    by simp
  from safeTransfer_depth [OF this, of r1 cal callee _ _ 0 r2] show ?thesis
    by (simp add: withdraw_def withdraw_body_def onlyOrganizer_def whenNotPaused_def
        nonReentrant_def Let_def)
qed

lemma execute_depth:
  "dispatch (dispatch r callee) callee sender c (fresh s) = execute callee sender c s"
  unfolding execute_def
  by (cases c) (simp_all add: distributePrizes_depth [of r callee _ _ _ _ rejected]
      withdraw_depth [of r callee _ _ _ rejected])

subsection \<open>Removal from the index\<close>

lemma swap_pop:
  assumes "distinct xs" "i < length xs"
  shows "set (butlast (if i \<noteq> length xs - 1 then xs[i := xs ! (length xs - 1)] else xs))
           = set xs - {xs ! i}"
    and "distinct (butlast (if i \<noteq> length xs - 1 then xs[i := xs ! (length xs - 1)] else xs))"
proof -
  from assms(2) have ne: "xs \<noteq> []" by auto
  define ys l where "ys = butlast xs" and "l = last xs"
  have xs: "xs = ys @ [l]"
    using ne by (simp add: ys_def l_def)
  have d: "distinct ys" "l \<notin> set ys"
    using assms(1) xs by auto
  have last: "xs ! (length xs - 1) = l"
    by (simp add: xs)
  show "set (butlast (if i \<noteq> length xs - 1 then xs[i := xs ! (length xs - 1)] else xs))
           = set xs - {xs ! i}"
  proof (cases "i = length xs - 1")
    case True
    then show ?thesis
      using d by (auto simp: xs)
  next
    case False
    with assms(2) have i: "i < length ys"
      by (simp add: xs)
    then have "butlast (xs[i := l]) = ys[i := l]"
      by (simp add: xs list_update_append1)
    moreover have "set (ys[i := l]) = insert l (set ys - {ys ! i})"
      using d i by (simp add: set_update_distinct)
    moreover have "xs ! i = ys ! i"
      using i by (simp add: xs nth_append)
    moreover have "ys ! i \<noteq> l"
      using d i by (metis nth_mem)
    ultimately show ?thesis
      using False last d by (auto simp: xs)
  qed
  show "distinct (butlast (if i \<noteq> length xs - 1 then xs[i := xs ! (length xs - 1)] else xs))"
  proof (cases "i = length xs - 1")
    case True
    then show ?thesis
      using d by (simp add: xs)
  next
    case False
    with assms(2) have i: "i < length ys"
      by (simp add: xs)
    then have "butlast (xs[i := l]) = ys[i := l]"
      by (simp add: xs list_update_append1)
    moreover have "distinct (ys[i := l])"
      using d by (simp add: distinct_list_update)
    ultimately show ?thesis
      using False last by simp
  qed
qed

lemma removeActive_from_set:
  "distinct xs \<Longrightarrow> hid \<notin> set (take i xs) \<Longrightarrow>
     set (removeActive_from i hid xs) = set xs - {hid} \<and> distinct (removeActive_from i hid xs)"
proof (induction i hid xs rule: removeActive_from.induct)
  case (1 i hid xs)
  show ?case
  proof (cases "i < length xs")
    case True
    show ?thesis
    proof (cases "xs ! i = hid")
      case eq: True
      have "removeActive_from i hid xs =
          butlast (if i \<noteq> length xs - 1 then xs[i := xs ! (length xs - 1)] else xs)"
        using True eq by (subst removeActive_from.simps) simp
      with swap_pop [OF "1.prems"(1) True] eq show ?thesis
        by simp
    next
      case False
      have "hid \<notin> set (take (i + 1) xs)"
        using "1.prems"(2) True False by (simp add: take_Suc_conv_app_nth)
      with "1.IH" [OF True False "1.prems"(1)] True False show ?thesis
        by (subst (1 2) removeActive_from.simps) simp
    qed
  next
    case False
    with "1.prems" show ?thesis
      by (subst (1 2) removeActive_from.simps) simp
  qed
qed

lemma removeActive_from_explicit:
  "hid \<notin> set xs \<Longrightarrow> i \<le> length xs \<Longrightarrow>
     removeActive_from i hid (xs @ hid # ys) = (if ys = [] then xs else xs @ last ys # butlast ys)"
proof (induction "length xs - i" arbitrary: i)
  case 0
  then have i: "i = length xs" by simp
  have "(xs @ hid # ys) ! (length xs + length ys) = last (hid # ys)"
    by (simp add: nth_append last_conv_nth)
  then show ?case
    by (subst removeActive_from.simps) (auto simp: i butlast_append)
next
  case (Suc n)
  then have i: "i < length xs" by simp
  then have "(xs @ hid # ys) ! i \<noteq> hid"
    using Suc.prems(1) by (metis nth_append nth_mem)
  moreover have "n = length xs - (i + 1)" "i + 1 \<le> length xs"
    using Suc.hyps(2) i by simp_all
  ultimately show ?case
    using Suc.hyps(1) [of "i + 1"] Suc.prems(1) i
    by (subst removeActive_from.simps) simp
qed

subsection \<open>Invariants of a run\<close>

lemma transact_cases:
  assumes "\<And>e. execute callee sender c s = Inl e \<Longrightarrow> P s"
    and "\<And>m. execute callee sender c s = Inr m \<Longrightarrow> P (st m)"
  shows "P (transact callee sender c s)"
  using assms by (cases "execute callee sender c s") (simp_all add: transact_def)

lemma failed_transaction:
  assumes "\<not> (\<exists>m. execute callee sender c s = Inr m)"
  shows "isl (execute callee sender c s) \<and> transact callee sender c s = s \<and>
    emitted callee sender c s = []"
  using assms by (cases "execute callee sender c s") (simp_all add: transact_def emitted_def)


lemma invariant_constructor: "invariant (constructor this sender)"
  by (simp add: invariant_def constructor_def zero_Hackathon_def)

lemma invariant_transact:
  assumes "invariant s"
  shows "invariant (transact callee sender c s)"
proof (rule transact_cases)
  fix e show "invariant s" by (fact assms)
next
  fix m
  assume ex: "execute callee sender c s = Inr m"
  show "invariant (st m)"
  proof (cases c)
    case (FundHackathon hid v)
    from fund_Inr [OF ex [unfolded FundHackathon]] assms show ?thesis
      by (auto simp: invariant_def)
  next
    case (SetWinners hid ws)
    from iffD1 [OF setWinners_Inr ex [unfolded SetWinners]] assms show ?thesis
      by (auto simp: invariant_def)
  next
    case (DistributePrizes hid)
    note d = distribute_Inr [OF ex [unfolded DistributePrizes]]
    from assms have "distinct (activeHackathons s)"
      by (simp add: invariant_def)
    from removeActive_from_set [OF this, of hid 0]
    have a: "set (activeHackathons (st m)) = set (activeHackathons s) - {hid}"
      "distinct (activeHackathons (st m))"
      by (simp_all add: d)
    have w: "length (winners (hackathons (st m) i)) \<le> 3" for i
      using d(14) [of i] assms by (auto simp: invariant_def)
    show ?thesis
      unfolding invariant_def
    proof (intro conjI allI)
      show "\<not> entered (st m)" by (fact d(12))
      show "distinct (activeHackathons (st m))" by (fact a(2))
      show "length (winners (hackathons (st m) i)) \<le> 3" for i by (fact w)
      show "i \<in> set (activeHackathons (st m)) \<longleftrightarrow>
          isFunded (hackathons (st m) i) \<and> \<not> prizesDistributed (hackathons (st m) i)" for i
        using d(14) [of i] d(5) assms unfolding a(1) by (auto simp: invariant_def)
      show "prizesDistributed (hackathons (st m) i) \<longrightarrow> isFunded (hackathons (st m) i)" for i
        using d(14) [of i] d(5) assms by (auto simp: invariant_def)
    qed
  next
    case (EndHackathon hid)
    from iffD1 [OF endHackathon_Inr ex [unfolded EndHackathon]] assms show ?thesis
      by (auto simp: invariant_def)
  next
    case Withdraw
    note w = withdraw_Inr [OF ex [unfolded Withdraw]]
    have l: "length (winners (hackathons (st m) i)) \<le> 3" for i
    proof -
      from w(8) have "winners (hackathons (st m) i) = winners (hackathons s i) \<or>
          length (winners (hackathons (st m) i)) \<le> 3"
        by (simp add: preserved_def)
      moreover from assms have "length (winners (hackathons s i)) \<le> 3"
        by (simp add: invariant_def)
      ultimately show ?thesis by auto
    qed
    from w(8) assms l show ?thesis
      by (simp add: invariant_def preserved_def)
  next
    case Pause
    from iffD1 [OF pause_Inr ex [unfolded Pause]] assms show ?thesis
      by (auto simp: invariant_def)
  next
    case Unpause
    from iffD1 [OF unpause_Inr ex [unfolded Unpause]] assms show ?thesis
      by (auto simp: invariant_def)
  next
    case (Receive v)
    from iffD1 [OF receive_Inr ex [unfolded Receive]] assms show ?thesis
      by (auto simp: invariant_def)
  qed
qed

lemma invariant_run: "invariant s \<Longrightarrow> invariant (run s txs)"
  by (induction txs arbitrary: s) (auto simp: invariant_transact)

lemma invariant_reachable: "invariant (run (constructor this sender) txs)"
  by (simp add: invariant_run invariant_constructor)

lemma transact_fixed:
  "organizer (transact callee sender c s) = organizer s \<and>
   self (transact callee sender c s) = self s"
proof (rule transact_cases)
  fix m
  assume ex: "execute callee sender c s = Inr m"
  show "organizer (st m) = organizer s \<and> self (st m) = self s"
  proof (cases c)
    case (FundHackathon hid v)
    from fund_Inr [OF ex [unfolded FundHackathon]] show ?thesis by simp
  next
    case (DistributePrizes hid)
    from distribute_Inr(11,13) [OF ex [unfolded DistributePrizes]] show ?thesis by simp
  next
    case Withdraw
    from withdraw_Inr(8) [OF ex [unfolded Withdraw]] show ?thesis by (simp add: preserved_def)
  next
    case (SetWinners hid ws)
    from iffD1 [OF setWinners_Inr ex [unfolded SetWinners]] show ?thesis by simp
  next
    case (EndHackathon hid)
    from iffD1 [OF endHackathon_Inr ex [unfolded EndHackathon]] show ?thesis by simp
  next
    case Pause
    from iffD1 [OF pause_Inr ex [unfolded Pause]] show ?thesis by simp
  next
    case Unpause
    from iffD1 [OF unpause_Inr ex [unfolded Unpause]] show ?thesis by simp
  next
    case (Receive v)
    from iffD1 [OF receive_Inr ex [unfolded Receive]] show ?thesis by simp
  qed
qed simp

lemma run_fixed: "organizer (run s txs) = organizer s \<and> self (run s txs) = self s"
  by (induction txs arbitrary: s) (auto simp: transact_fixed)

lemma transact_flags:
  "(isFunded (hackathons s hid) \<longrightarrow>
      isFunded (hackathons (transact callee sender c s) hid) \<and>
      totalFunding (hackathons (transact callee sender c s) hid) = totalFunding (hackathons s hid)) \<and>
   (prizesDistributed (hackathons s hid) \<longrightarrow>
      prizesDistributed (hackathons (transact callee sender c s) hid))"
proof (rule transact_cases)
  fix m
  assume ex: "execute callee sender c s = Inr m"
  show "(isFunded (hackathons s hid) \<longrightarrow>
      isFunded (hackathons (st m) hid) \<and>
      totalFunding (hackathons (st m) hid) = totalFunding (hackathons s hid)) \<and>
   (prizesDistributed (hackathons s hid) \<longrightarrow> prizesDistributed (hackathons (st m) hid))"
  proof (cases c)
    case (FundHackathon hid' v)
    from fund_Inr [OF ex [unfolded FundHackathon]] show ?thesis by auto
  next
    case (DistributePrizes hid')
    from distribute_Inr(14) [OF ex [unfolded DistributePrizes], of hid] show ?thesis by auto
  next
    case Withdraw
    from withdraw_Inr(8) [OF ex [unfolded Withdraw]] show ?thesis by (simp add: preserved_def)
  next
    case (SetWinners hid' ws)
    from iffD1 [OF setWinners_Inr ex [unfolded SetWinners]] show ?thesis by auto
  next
    case (EndHackathon hid')
    from iffD1 [OF endHackathon_Inr ex [unfolded EndHackathon]] show ?thesis by auto
  next
    case Pause
    from iffD1 [OF pause_Inr ex [unfolded Pause]] show ?thesis by auto
  next
    case Unpause
    from iffD1 [OF unpause_Inr ex [unfolded Unpause]] show ?thesis by auto
  next
    case (Receive v)
    from iffD1 [OF receive_Inr ex [unfolded Receive]] show ?thesis by auto
  qed
qed simp

lemma run_funded:
  "isFunded (hackathons s hid) \<Longrightarrow>
     isFunded (hackathons (run s txs) hid) \<and>
     totalFunding (hackathons (run s txs) hid) = totalFunding (hackathons s hid)"
proof (induction txs arbitrary: s)
  case Nil
  then show ?case by simp
next
  case (Cons t txs)
  obtain callee sender c where t: "t = (callee, sender, c)"
    by (cases t) auto
  from transact_flags [of s hid callee sender c] Cons.prems
    Cons.IH [of "transact callee sender c s"]
  show ?case
    by (simp add: t)
qed

lemma run_distributed:
  "prizesDistributed (hackathons s hid) \<Longrightarrow> prizesDistributed (hackathons (run s txs) hid)"
proof (induction txs arbitrary: s)
  case Nil
  then show ?case by simp
next
  case (Cons t txs)
  obtain callee sender c where t: "t = (callee, sender, c)"
    by (cases t) auto
  from transact_flags [of s hid callee sender c] Cons.prems
    Cons.IH [of "transact callee sender c s"]
  show ?case
    by (simp add: t)
qed

lemma transact_index_frame:
  assumes "\<not> touches_index c"
  shows "activeHackathons (transact callee sender c s) = activeHackathons s"
proof (rule transact_cases)
  fix m
  assume ex: "execute callee sender c s = Inr m"
  show "activeHackathons (st m) = activeHackathons s"
  proof (cases c)
    case (FundHackathon hid v)
    with assms show ?thesis by simp
  next
    case (DistributePrizes hid)
    with assms show ?thesis by simp
  next
    case Withdraw
    from withdraw_Inr(8) [OF ex [unfolded Withdraw]] show ?thesis by (simp add: preserved_def)
  next
    case (SetWinners hid ws)
    from iffD1 [OF setWinners_Inr ex [unfolded SetWinners]] show ?thesis by simp
  next
    case (EndHackathon hid)
    from iffD1 [OF endHackathon_Inr ex [unfolded EndHackathon]] show ?thesis by simp
  next
    case Pause
    from iffD1 [OF pause_Inr ex [unfolded Pause]] show ?thesis by simp
  next
    case Unpause
    from iffD1 [OF unpause_Inr ex [unfolded Unpause]] show ?thesis by simp
  next
    case (Receive v)
    from iffD1 [OF receive_Inr ex [unfolded Receive]] show ?thesis by simp
  qed
qed simp

subsection \<open>The example runs\<close>

lemma ready_eq:
  "ready hid funding [11, 12, 13] =
     (if funding > 0 then
        \<lparr>organizer = 1,
         hackathons = (\<lambda>_. zero_Hackathon)(hid := \<lparr>totalFunding = funding, isFunded = True,
           prizesDistributed = False, isEnded = True, winners = [11, 12, 13], exists = True\<rparr>),
         activeHackathons = [hid], paused = False, entered = False, balance = funding,
         self = 1000\<rparr>
      else constructor 1000 1)"
  by (simp add: ready_def contract_defs)


lemma pending_eq:
  "pending =
        \<lparr>organizer = 1,
         hackathons = (\<lambda>_. zero_Hackathon)(7 := \<lparr>totalFunding = 100, isFunded = True,
           prizesDistributed = False, isEnded = False, winners = [11, 12, 13], exists = True\<rparr>),
         activeHackathons = [7], paused = False, entered = False, balance = 100,
         self = 1000\<rparr>"
  by (simp add: pending_def contract_defs)

lemma funded_eq:
  "funded =
        \<lparr>organizer = 1,
         hackathons = (\<lambda>_. zero_Hackathon)(7 := \<lparr>totalFunding = 100, isFunded = True,
           prizesDistributed = False, isEnded = False, winners = [], exists = True\<rparr>),
         activeHackathons = [7], paused = False, entered = False, balance = 100,
         self = 1000\<rparr>"
  by (simp add: funded_def contract_defs)

lemma three_funded_eq:
  "three_funded =
        \<lparr>organizer = 1,
         hackathons = (\<lambda>_. zero_Hackathon)
           (8 := \<lparr>totalFunding = 200, isFunded = True,
              prizesDistributed = False, isEnded = False, winners = [], exists = True\<rparr>,
            9 := \<lparr>totalFunding = 300, isFunded = True,
              prizesDistributed = False, isEnded = False, winners = [], exists = True\<rparr>,
            7 := \<lparr>totalFunding = 100, isFunded = True,
              prizesDistributed = False, isEnded = True, winners = [11, 12], exists = True\<rparr>),
         activeHackathons = [7, 8, 9], paused = False, entered = False, balance = 600,
         self = 1000\<rparr>"
  by (simp add: three_funded_def contract_defs)

lemma settled_eq:
  "settled =
        \<lparr>organizer = 1,
         hackathons = (\<lambda>_. zero_Hackathon)(7 := \<lparr>totalFunding = 101, isFunded = True,
           prizesDistributed = True, isEnded = True, winners = [11, 12, 13], exists = True\<rparr>),
         activeHackathons = [], paused = False, entered = False, balance = 0,
         self = 1000\<rparr>"
  by (simp add: settled_def ready_eq contract_defs)

lemma surplus_eq:
  "surplus =
        \<lparr>organizer = 1,
         hackathons = (\<lambda>_. zero_Hackathon)(7 := \<lparr>totalFunding = 101, isFunded = True,
           prizesDistributed = True, isEnded = True, winners = [11, 12, 13], exists = True\<rparr>),
         activeHackathons = [], paused = False, entered = False, balance = 4,
         self = 1000\<rparr>"
  by (simp add: surplus_def ready_eq contract_defs)

subsection \<open>The payee of each transfer\<close>

lemma hackathons_debited [simp]: "hackathons (debited s to amt) = hackathons s"
  by (simp add: debited_def)



subsection \<open>The handlers\<close>

lemma settle_cases:
  assumes "settle env c failed message update db = (db', resp, cs)"
  shows "cs = [c]"
    and "db' \<noteq> db \<Longrightarrow> \<exists>tx. submitted (ledger env c) = Returns tx \<and>
           confirmed (ledger env c) = Returns () \<and> resp = Success message tx \<and> db' = update db"
    and "throws (submitted (ledger env c)) \<or> throws (confirmed (ledger env c)) \<Longrightarrow>
           db' = db \<and> is_failure resp"
  using assms
  by (auto simp: settle_def split: outcome.splits option.splits)

lemma handler_shape:
  assumes "handle env cmd req db = (db', resp, cs)"
  shows "(cs = [] \<and> db' = db \<and> is_failure resp) \<or>
         (\<exists>c failed message update. settle env c failed message update db = (db', resp, cs))"
proof (cases cmd)
  case End
  with assms show ?thesis
    by (auto simp: post_end_def Let_def split: if_splits outcome.splits option.splits)
next
  case Fund
  with assms show ?thesis
    by (auto simp: post_fund_def Let_def split: if_splits outcome.splits option.splits)
next
  case SetWinners_command
  with assms show ?thesis
    by (auto simp: post_set_winners_def Let_def split: if_splits outcome.splits option.splits)
next
  case Distribute
  with assms show ?thesis
    by (auto simp: post_distribute_def Let_def split: if_splits outcome.splits option.splits)
qed

section \<open>The prize split\<close>




section \<open>Preconditions of a distribution\<close>

text \<open>
  Claim C3. \<^verbatim>\<open>distributePrizes\<close> succeeds only for a record that is funded, has winners,
  is not yet distributed and is ended, and only when the balance covers \<open>totalFunding\<close>;
  when one of these fails the transaction reverts: the contract is unchanged and nothing is
  emitted. In particular a funded record with winners that is not ended is rejected.
\<close>

theorem distribute_preconditions:
  "(execute callee sender (DistributePrizes hackathonId) s = Inr m \<longrightarrow>
      isFunded (hackathons s hackathonId) \<and> winners (hackathons s hackathonId) \<noteq> [] \<and>
      \<not> prizesDistributed (hackathons s hackathonId) \<and> isEnded (hackathons s hackathonId) \<and>
      totalFunding (hackathons s hackathonId) \<le> balance s) \<and>
   (\<not> (isFunded (hackathons s hackathonId) \<and> winners (hackathons s hackathonId) \<noteq> [] \<and>
       \<not> prizesDistributed (hackathons s hackathonId) \<and> isEnded (hackathons s hackathonId) \<and>
       totalFunding (hackathons s hackathonId) \<le> balance s) \<longrightarrow>
      isl (execute callee sender (DistributePrizes hackathonId) s) \<and>
      transact callee sender (DistributePrizes hackathonId) s = s \<and>
      emitted callee sender (DistributePrizes hackathonId) s = [])"
proof (rule conjI; rule impI)
  assume "execute callee sender (DistributePrizes hackathonId) s = Inr m"
  from distribute_Inr(5-9) [OF this]
  show "isFunded (hackathons s hackathonId) \<and> winners (hackathons s hackathonId) \<noteq> [] \<and>
      \<not> prizesDistributed (hackathons s hackathonId) \<and> isEnded (hackathons s hackathonId) \<and>
      totalFunding (hackathons s hackathonId) \<le> balance s"
    by simp
next
  assume n: "\<not> (isFunded (hackathons s hackathonId) \<and> winners (hackathons s hackathonId) \<noteq> [] \<and>
       \<not> prizesDistributed (hackathons s hackathonId) \<and> isEnded (hackathons s hackathonId) \<and>
       totalFunding (hackathons s hackathonId) \<le> balance s)"
  have "\<not> (\<exists>m'. execute callee sender (DistributePrizes hackathonId) s = Inr m')"
    using n distribute_Inr(5-9) [of callee sender hackathonId s] by blast
  from failed_transaction [OF this]
  show "isl (execute callee sender (DistributePrizes hackathonId) s) \<and>
    transact callee sender (DistributePrizes hackathonId) s = s \<and>
    emitted callee sender (DistributePrizes hackathonId) s = []" .
qed

theorem distribute_preconditions_witness:
  "execute all_accept 1 (DistributePrizes 7) pending = Inl Hackathon_must_be_ended \<and>
   isFunded (hackathons pending 7) \<and> winners (hackathons pending 7) = [11, 12, 13] \<and>
   transact all_accept 1 (DistributePrizes 7) pending = pending \<and>
   emitted all_accept 1 (DistributePrizes 7) pending = [] \<and>
   isEnded (hackathons (ready 7 101 [11, 12, 13]) 7) \<and>
   totalFunding (hackathons (ready 7 101 [11, 12, 13]) 7) \<le> balance (ready 7 101 [11, 12, 13])"
proof -
  have a: "\<not> isEnded (hackathons pending 7)"
    by (simp add: pending_eq)
  have b: "execute all_accept 1 (DistributePrizes 7) (ready 7 101 [11, 12, 13])
      = Inr (projr (execute all_accept 1 (DistributePrizes 7) (ready 7 101 [11, 12, 13])))"
    by (simp add: ready_eq contract_defs)
  have c: "execute all_accept 1 (DistributePrizes 7) pending = Inl Hackathon_must_be_ended"
    by (simp add: pending_eq contract_defs)
  show ?thesis
    using distribute_preconditions [of all_accept 1 7 pending] a c
      distribute_preconditions [of all_accept 1 7 "ready 7 101 [11, 12, 13]", THEN conjunct1, rule_format, OF b]
    by (simp add: pending_eq)
qed

section \<open>A failed first funding\<close>

text \<open>
  Claim C10. When the first \<^verbatim>\<open>fundHackathon\<close> for an id sends no value, or comes from
  another caller, or finds the contract paused, the transaction reverts as a whole: the
  record still does not exist afterwards and no event is emitted, although the body sets
  \<open>exists\<close> and emits \<open>HackathonCreated\<close> before it checks the value.
\<close>

theorem fund_failure_rolls_back:
  assumes "\<not> exists (hackathons s hackathonId)"
    and "msg_value = 0 \<or> sender \<noteq> organizer s \<or> paused s"
  shows "isl (execute callee sender (FundHackathon hackathonId msg_value) s) \<and>
         transact callee sender (FundHackathon hackathonId msg_value) s = s \<and>
         \<not> exists (hackathons (transact callee sender (FundHackathon hackathonId msg_value) s) hackathonId) \<and>
         emitted callee sender (FundHackathon hackathonId msg_value) s = []"
proof -
  have "\<not> (\<exists>m. execute callee sender (FundHackathon hackathonId msg_value) s = Inr m)"
    using assms(2) fund_Inr(1,2,5) [of callee sender hackathonId msg_value s] by auto
  from failed_transaction [OF this] assms(1) show ?thesis
    by simp
qed

theorem fund_failure_rolls_back_witness:
  "execute all_accept 1 (FundHackathon 7 0) (constructor 1000 1) = Inl Must_send_some_ETH \<and>
   execute all_accept 2 (FundHackathon 7 5) (constructor 1000 1) = Inl Only_organizer_can_call_this \<and>
   \<not> exists (hackathons (transact all_accept 1 (FundHackathon 7 0) (constructor 1000 1)) 7) \<and>
   emitted all_accept 1 (FundHackathon 7 0) (constructor 1000 1) = []"
proof -
  have a: "\<not> exists (hackathons (constructor 1000 1) 7)"
    by (simp add: contract_defs)
  show ?thesis
    using fund_failure_rolls_back [OF a, of 0 1 all_accept]
    by (simp add: contract_defs)
qed

section \<open>Funding happens once\<close>

text \<open>
  Claim C4. A successful \<^verbatim>\<open>fundHackathon\<close> has a positive value, finds the record
  unfunded, and leaves it funded with \<open>totalFunding\<close> equal to the value sent. On a funded
  record every further \<^verbatim>\<open>fundHackathon\<close> reverts and changes nothing, and after any
  sequence of transactions the record is still funded with the same \<open>totalFunding\<close>.
\<close>

theorem totalFunding_set_once:
  "(execute callee sender (FundHackathon hackathonId msg_value) s = Inr m \<longrightarrow>
      msg_value > 0 \<and> \<not> isFunded (hackathons s hackathonId) \<and>
      totalFunding (hackathons (st m) hackathonId) = msg_value \<and>
      isFunded (hackathons (st m) hackathonId)) \<and>
   (isFunded (hackathons s hackathonId) \<longrightarrow>
      isl (execute callee' sender' (FundHackathon hackathonId msg_value') s) \<and>
      transact callee' sender' (FundHackathon hackathonId msg_value') s = s \<and>
      emitted callee' sender' (FundHackathon hackathonId msg_value') s = [] \<and>
      isFunded (hackathons (run s txs) hackathonId) \<and>
      totalFunding (hackathons (run s txs) hackathonId) = totalFunding (hackathons s hackathonId))"
proof (rule conjI; rule impI)
  assume "execute callee sender (FundHackathon hackathonId msg_value) s = Inr m"
  from fund_Inr(4-6) [OF this]
  show "msg_value > 0 \<and> \<not> isFunded (hackathons s hackathonId) \<and>
      totalFunding (hackathons (st m) hackathonId) = msg_value \<and>
      isFunded (hackathons (st m) hackathonId)"
    by simp
next
  assume f: "isFunded (hackathons s hackathonId)"
  have "\<not> (\<exists>m'. execute callee' sender' (FundHackathon hackathonId msg_value') s = Inr m')"
    using f fund_Inr(4) [of callee' sender' hackathonId msg_value' s] by blast
  from failed_transaction [OF this] run_funded [OF f, of txs]
  show "isl (execute callee' sender' (FundHackathon hackathonId msg_value') s) \<and>
      transact callee' sender' (FundHackathon hackathonId msg_value') s = s \<and>
      emitted callee' sender' (FundHackathon hackathonId msg_value') s = [] \<and>
      isFunded (hackathons (run s txs) hackathonId) \<and>
      totalFunding (hackathons (run s txs) hackathonId) = totalFunding (hackathons s hackathonId)"
    by simp
qed

theorem totalFunding_set_once_witness:
  "totalFunding (hackathons (st (projr
      (execute all_accept 1 (FundHackathon 7 100) (constructor 1000 1)))) 7) = 100 \<and>
   execute all_accept 1 (FundHackathon 7 55) funded = Inl Hackathon_already_funded \<and>
   transact all_accept 1 (FundHackathon 7 55) funded = funded \<and>
   totalFunding (hackathons (run funded
      [(all_accept, 1, FundHackathon 7 55), (all_accept, 1, SetWinners 7 [11, 12]),
       (all_accept, 1, EndHackathon 7), (all_accept, 1, DistributePrizes 7),
       (all_accept, 1, FundHackathon 7 9)]) 7) = 100"
proof -
  have a: "execute all_accept 1 (FundHackathon 7 100) (constructor 1000 1)
      = Inr (projr (execute all_accept 1 (FundHackathon 7 100) (constructor 1000 1)))"
    by (simp add: contract_defs)
  have b: "isFunded (hackathons funded 7)"
    by (simp add: funded_eq)
  have d: "execute all_accept 1 (FundHackathon 7 55) funded = Inl Hackathon_already_funded"
    by (simp add: funded_eq contract_defs)
  have e: "totalFunding (hackathons funded 7) = 100"
    by (simp add: funded_eq)
  show ?thesis
    using totalFunding_set_once [of all_accept 1 7 100 "constructor 1000 1" _ all_accept 1 55,
        THEN conjunct1, rule_format, OF a]
      totalFunding_set_once [of all_accept 1 7 100 funded _ all_accept 1 55
        "[(all_accept, 1, FundHackathon 7 55), (all_accept, 1, SetWinners 7 [11, 12]),
          (all_accept, 1, EndHackathon 7), (all_accept, 1, DistributePrizes 7),
          (all_accept, 1, FundHackathon 7 9)]", THEN conjunct2, rule_format, OF b]
      d e
    by (simp del: run.simps)
qed

section \<open>Setting the winners\<close>

text \<open>
  Claim C6. \<^verbatim>\<open>setWinners\<close> succeeds exactly when the organizer calls it on the unpaused
  contract for a record that exists, is funded and is not distributed, with one to three
  winners, none of them the zero address and no two equal. A successful call stores the
  list as given, and a further call with another valid list succeeds and replaces it. Once
  the prizes are distributed, every later \<^verbatim>\<open>setWinners\<close> reverts.
\<close>

theorem setWinners_spec:
  "((\<exists>m. execute callee sender (SetWinners hackathonId ws) s = Inr m) \<longleftrightarrow>
      sender = organizer s \<and> \<not> paused s \<and> exists (hackathons s hackathonId) \<and>
      isFunded (hackathons s hackathonId) \<and> \<not> prizesDistributed (hackathons s hackathonId) \<and>
      1 \<le> length ws \<and> length ws \<le> 3 \<and> 0 \<notin> set ws \<and> distinct ws) \<and>
   (execute callee sender (SetWinners hackathonId ws) s = Inr m \<longrightarrow>
      winners (hackathons (st m) hackathonId) = ws \<and>
      (1 \<le> length ws' \<and> length ws' \<le> 3 \<and> 0 \<notin> set ws' \<and> distinct ws' \<longrightarrow>
         (\<exists>m'. execute callee sender (SetWinners hackathonId ws') (st m) = Inr m' \<and>
               winners (hackathons (st m') hackathonId) = ws'))) \<and>
   (prizesDistributed (hackathons s hackathonId) \<longrightarrow>
      isl (execute callee' sender' (SetWinners hackathonId ws') (run s txs)))"
proof (intro conjI)
  show "(\<exists>m. execute callee sender (SetWinners hackathonId ws) s = Inr m) \<longleftrightarrow>
      sender = organizer s \<and> \<not> paused s \<and> exists (hackathons s hackathonId) \<and>
      isFunded (hackathons s hackathonId) \<and> \<not> prizesDistributed (hackathons s hackathonId) \<and>
      1 \<le> length ws \<and> length ws \<le> 3 \<and> 0 \<notin> set ws \<and> distinct ws"
    unfolding setWinners_Inr by blast
next
  show "execute callee sender (SetWinners hackathonId ws) s = Inr m \<longrightarrow>
      winners (hackathons (st m) hackathonId) = ws \<and>
      (1 \<le> length ws' \<and> length ws' \<le> 3 \<and> 0 \<notin> set ws' \<and> distinct ws' \<longrightarrow>
         (\<exists>m'. execute callee sender (SetWinners hackathonId ws') (st m) = Inr m' \<and>
               winners (hackathons (st m') hackathonId) = ws'))"
    unfolding setWinners_Inr by auto
next
  show "prizesDistributed (hackathons s hackathonId) \<longrightarrow>
      isl (execute callee' sender' (SetWinners hackathonId ws') (run s txs))"
  proof
    assume "prizesDistributed (hackathons s hackathonId)"
    then have "prizesDistributed (hackathons (run s txs) hackathonId)"
      by (rule run_distributed)
    then have "\<not> (\<exists>m'. execute callee' sender' (SetWinners hackathonId ws') (run s txs) = Inr m')"
      unfolding setWinners_Inr by blast
    from failed_transaction [OF this]
    show "isl (execute callee' sender' (SetWinners hackathonId ws') (run s txs))"
      by simp
  qed
qed

text \<open>
  The spec's rejected lists (a duplicate, a zero address, no winner, four winners), a
  replacement before the distribution, and a rejection after it.
\<close>

theorem setWinners_spec_witness:
  "execute all_accept 1 (SetWinners 7 [21, 21]) pending = Inl Duplicate_winner_address \<and>
   execute all_accept 1 (SetWinners 7 [21, 0]) pending = Inl Invalid_winner_address \<and>
   execute all_accept 1 (SetWinners 7 []) pending = Inl Must_select_1_3_winners \<and>
   execute all_accept 1 (SetWinners 7 [21, 22, 23, 24]) pending = Inl Must_select_1_3_winners \<and>
   winners (hackathons pending 7) = [11, 12, 13] \<and>
   winners (hackathons (st (projr (execute all_accept 1 (SetWinners 7 [21, 22]) pending))) 7)
     = [21, 22] \<and>
   isl (execute all_accept 1 (SetWinners 7 [21, 22])
     (run (transact all_accept 1 (DistributePrizes 7) (ready 7 101 [11, 12, 13]))
        [(all_accept, 1, Pause), (all_accept, 1, Unpause)]))"
proof -
  have a: "execute all_accept 1 (SetWinners 7 [21, 22]) pending
      = Inr (projr (execute all_accept 1 (SetWinners 7 [21, 22]) pending))"
    by (simp add: pending_eq contract_defs)
  have b: "prizesDistributed
      (hackathons (transact all_accept 1 (DistributePrizes 7) (ready 7 101 [11, 12, 13])) 7)"
    by (simp add: ready_eq contract_defs)
  have c: "execute all_accept 1 (SetWinners 7 [21, 21]) pending = Inl Duplicate_winner_address"
    "execute all_accept 1 (SetWinners 7 [21, 0]) pending = Inl Invalid_winner_address"
    "execute all_accept 1 (SetWinners 7 []) pending = Inl Must_select_1_3_winners"
    "execute all_accept 1 (SetWinners 7 [21, 22, 23, 24]) pending = Inl Must_select_1_3_winners"
    "winners (hackathons pending 7) = [11, 12, 13]"
    by (simp_all add: pending_eq contract_defs)
  show ?thesis
    using setWinners_spec [THEN conjunct2, THEN conjunct1, rule_format, OF a]
      setWinners_spec [THEN conjunct2, THEN conjunct2, rule_format, OF b,
        of all_accept 1 "[21, 22]" "[(all_accept, 1, Pause), (all_accept, 1, Unpause)]"]
      c
    by (simp del: run.simps)
qed

section \<open>The index of active hackathons\<close>

text \<open>
  Claim C5. In every state reached from the constructor an id is in \<^verbatim>\<open>activeHackathons\<close>
  exactly when its record is funded and not distributed. A successful \<^verbatim>\<open>fundHackathon\<close>
  appends the id; a successful \<^verbatim>\<open>distributePrizes\<close> removes the id's single occurrence by
  moving the last element into its place and dropping the last slot; no other entry point
  changes the index.
\<close>

theorem active_index:
  "(hackathonId \<in> set (activeHackathons (run (constructor this deployer) txs)) \<longleftrightarrow>
      isFunded (hackathons (run (constructor this deployer) txs) hackathonId) \<and>
      \<not> prizesDistributed (hackathons (run (constructor this deployer) txs) hackathonId)) \<and>
   (execute callee sender (FundHackathon hackathonId msg_value) s = Inr m \<longrightarrow>
      activeHackathons (st m) = activeHackathons s @ [hackathonId]) \<and>
   (execute callee sender (DistributePrizes hackathonId) (run (constructor this deployer) txs) = Inr m' \<longrightarrow>
      (\<exists>xs ys. activeHackathons (run (constructor this deployer) txs) = xs @ hackathonId # ys \<and>
         hackathonId \<notin> set xs \<and> hackathonId \<notin> set ys \<and>
         activeHackathons (st m') = (if ys = [] then xs else xs @ last ys # butlast ys))) \<and>
   (\<not> touches_index c \<longrightarrow> activeHackathons (transact callee sender c s) = activeHackathons s)"
proof (intro conjI)
  show "hackathonId \<in> set (activeHackathons (run (constructor this deployer) txs)) \<longleftrightarrow>
      isFunded (hackathons (run (constructor this deployer) txs) hackathonId) \<and>
      \<not> prizesDistributed (hackathons (run (constructor this deployer) txs) hackathonId)"
    using invariant_reachable [of this deployer txs] by (simp add: invariant_def)
next
  show "execute callee sender (FundHackathon hackathonId msg_value) s = Inr m \<longrightarrow>
      activeHackathons (st m) = activeHackathons s @ [hackathonId]"
    by (rule impI) (rule fund_Inr(7))
next
  show "execute callee sender (DistributePrizes hackathonId) (run (constructor this deployer) txs) = Inr m' \<longrightarrow>
      (\<exists>xs ys. activeHackathons (run (constructor this deployer) txs) = xs @ hackathonId # ys \<and>
         hackathonId \<notin> set xs \<and> hackathonId \<notin> set ys \<and>
         activeHackathons (st m') = (if ys = [] then xs else xs @ last ys # butlast ys))"
  proof
    define r where "r = run (constructor this deployer) txs"
    assume "execute callee sender (DistributePrizes hackathonId) (run (constructor this deployer) txs) = Inr m'"
    then have ex: "execute callee sender (DistributePrizes hackathonId) r = Inr m'"
      by (simp add: r_def)
    note d = distribute_Inr [OF ex]
    have inv: "invariant r"
      unfolding r_def by (rule invariant_reachable)
    with d have "hackathonId \<in> set (activeHackathons r)"
      by (simp add: invariant_def)
    then obtain xs ys where xy: "activeHackathons r = xs @ hackathonId # ys" "hackathonId \<notin> set xs"
      by (blast dest: split_list_first)
    moreover from inv have "distinct (activeHackathons r)"
      by (simp add: invariant_def)
    with xy have "hackathonId \<notin> set ys"
      by simp
    moreover have "activeHackathons (st m') = (if ys = [] then xs else xs @ last ys # butlast ys)"
      using d(10) xy removeActive_from_explicit [of hackathonId xs 0 ys] by simp
    ultimately show "\<exists>xs ys. activeHackathons (run (constructor this deployer) txs) = xs @ hackathonId # ys \<and>
         hackathonId \<notin> set xs \<and> hackathonId \<notin> set ys \<and>
         activeHackathons (st m') = (if ys = [] then xs else xs @ last ys # butlast ys)"
      unfolding r_def by blast
  qed
next
  show "\<not> touches_index c \<longrightarrow> activeHackathons (transact callee sender c s) = activeHackathons s"
    by (rule impI) (rule transact_index_frame)
qed

theorem active_index_witness:
  "activeHackathons three_funded = [7, 8, 9] \<and>
   activeHackathons (st (projr (execute all_accept 1 (DistributePrizes 7) three_funded))) = [9, 8] \<and>
   activeHackathons (st (projr (execute all_accept 1 (FundHackathon 5 1) three_funded)))
     = [7, 8, 9, 5] \<and>
   activeHackathons (transact all_accept 1 (SetWinners 8 [11]) three_funded) = [7, 8, 9] \<and>
   (7 \<in> set (activeHackathons three_funded) \<longleftrightarrow>
      isFunded (hackathons three_funded 7) \<and> \<not> prizesDistributed (hackathons three_funded 7))"
proof -
  have a: "execute all_accept 1 (DistributePrizes 7) three_funded
      = Inr (projr (execute all_accept 1 (DistributePrizes 7) three_funded))"
    by (simp add: three_funded_eq contract_defs)
  have b: "execute all_accept 1 (FundHackathon 5 1) three_funded
      = Inr (projr (execute all_accept 1 (FundHackathon 5 1) three_funded))"
    by (simp add: three_funded_eq contract_defs)
  have c: "\<not> touches_index (SetWinners 8 [11])"
    by simp
  have d: "activeHackathons three_funded = [7, 8, 9]"
    by (simp add: three_funded_eq)
  have e: "xs @ 7 # ys = [7, 8, 9] \<Longrightarrow> 7 \<notin> set xs \<Longrightarrow> xs = [] \<and> ys = [8, 9]" for xs ys :: "nat list"
    by (cases xs) auto
  from active_index [THEN conjunct2, THEN conjunct2, THEN conjunct1, rule_format,
        OF a [unfolded three_funded_def]]
  obtain xs ys where xy: "activeHackathons three_funded = xs @ 7 # ys" "7 \<notin> set xs"
    "activeHackathons (st (projr (execute all_accept 1 (DistributePrizes 7) three_funded)))
       = (if ys = [] then xs else xs @ last ys # butlast ys)"
    unfolding three_funded_def [symmetric] by blast
  from xy(1) d have "xs @ 7 # ys = [7, 8, 9]"
    by simp
  from e [OF this xy(2)] xy(3)
  have f: "activeHackathons (st (projr (execute all_accept 1 (DistributePrizes 7) three_funded)))
       = [9, 8]"
    by simp
  show ?thesis
    using f
      active_index [THEN conjunct2, THEN conjunct1, rule_format, OF b]
      active_index [THEN conjunct2, THEN conjunct2, THEN conjunct2, rule_format, OF c,
        of all_accept 1 three_funded]
      active_index [THEN conjunct1, of 7 1000 1
        "[(all_accept, 1, FundHackathon 7 100), (all_accept, 1, FundHackathon 8 200),
          (all_accept, 1, FundHackathon 9 300), (all_accept, 1, SetWinners 7 [11, 12]),
          (all_accept, 1, EndHackathon 7)]"]
      d
    unfolding three_funded_def [symmetric]
    by (simp del: run.simps)
qed

section \<open>Withdrawing the surplus\<close>

text \<open>
  An empty index is not enough for \<^verbatim>\<open>withdraw\<close>: after a distribution that paid out
  everything the index is empty and the organizer's \<^verbatim>\<open>withdraw\<close> reverts with
  \<^verbatim>\<open>No funds to withdraw\<close>.
\<close>

theorem withdraw_counterexample:
  "activeHackathons settled = [] \<and> organizer settled = 1 \<and> \<not> paused settled \<and>
   execute all_accept 1 Withdraw settled = Inl No_funds_to_withdraw"
  by (simp add: settled_eq contract_defs)

text \<open>
  Claim C7, as the code has it. \<^verbatim>\<open>withdraw\<close> reverts whenever the index is non-empty, and
  also whenever the balance is zero. In a state reached from the constructor, with the
  index empty, the balance positive, the contract not paused and the organizer calling and
  accepting the transfer, it succeeds and makes one transfer, of the whole balance, to the
  organizer. When the organizer makes no call into the contract while it is paid, the
  only event is \<open>Withdrawn\<close> and the balance is left at zero.
\<close>

theorem withdraw_spec:
  "(activeHackathons s \<noteq> [] \<longrightarrow>
      isl (execute callee sender Withdraw s) \<and> transact callee sender Withdraw s = s) \<and>
   (balance s = 0 \<longrightarrow>
      isl (execute callee sender Withdraw s) \<and> transact callee sender Withdraw s = s) \<and>
   (s = run (constructor this deployer) txs \<and> deployer \<noteq> this \<and>
    activeHackathons s = [] \<and> sender = organizer s \<and> \<not> paused s \<and> 0 < balance s \<and>
    snd (callee 0 (organizer s) (balance s) (s\<lparr>entered := True, balance := 0\<rparr>)) \<longrightarrow>
      \<not> isl (execute callee sender Withdraw s) \<and>
      payouts (projr (execute callee sender Withdraw s)) = [(organizer s, balance s)] \<and>
      (fst (callee 0 (organizer s) (balance s) (s\<lparr>entered := True, balance := 0\<rparr>)) = [] \<longrightarrow>
         events (projr (execute callee sender Withdraw s)) = [Withdrawn (organizer s) (balance s)] \<and>
         balance (transact callee sender Withdraw s) = 0))"
proof (intro conjI impI)
  assume "activeHackathons s \<noteq> []"
  then have "\<not> (\<exists>m. execute callee sender Withdraw s = Inr m)"
    using withdraw_Inr(4) [of callee sender s] by blast
  from failed_transaction [OF this]
  show "isl (execute callee sender Withdraw s)" "transact callee sender Withdraw s = s"
    by simp_all
next
  assume "balance s = 0"
  then have "\<not> (\<exists>m. execute callee sender Withdraw s = Inr m)"
    using withdraw_Inr(5) [of callee sender s] by fastforce
  from failed_transaction [OF this]
  show "isl (execute callee sender Withdraw s)" "transact callee sender Withdraw s = s"
    by simp_all
next
  assume a: "s = run (constructor this deployer) txs \<and> deployer \<noteq> this \<and>
    activeHackathons s = [] \<and> sender = organizer s \<and> \<not> paused s \<and> 0 < balance s \<and>
    snd (callee 0 (organizer s) (balance s) (s\<lparr>entered := True, balance := 0\<rparr>))"
  then have r: "s = run (constructor this deployer) txs" and d: "deployer \<noteq> this"
    and pre: "activeHackathons s = []" "sender = organizer s" "\<not> paused s" "0 < balance s"
    and acc: "snd (callee 0 (organizer s) (balance s) (s\<lparr>entered := True, balance := 0\<rparr>))"
    by blast+
  have "invariant s"
    unfolding r by (rule invariant_reachable)
  then have ne: "\<not> entered s"
    by (simp add: invariant_def)
  have os: "organizer s \<noteq> self s"
    using d run_fixed [of "constructor this deployer" txs] by (simp add: r constructor_def)
  have re: "reaction_to callee ((fresh s)\<lparr>st := s\<lparr>entered := True\<rparr>\<rparr>) (organizer s) (balance s)
      = callee 0 (organizer s) (balance s) (s\<lparr>entered := True, balance := 0\<rparr>)"
    using os by (simp add: reaction_to_def debited_def fresh_def)
  have "\<exists>m. execute callee sender Withdraw s = Inr m"
    using pre ne acc by (intro withdraw_succeeds) (simp_all add: re)
  then obtain m where m: "execute callee sender Withdraw s = Inr m"
    by blast
  note w = withdraw_Inr [OF m]
  show "\<not> isl (execute callee sender Withdraw s)"
    "payouts (projr (execute callee sender Withdraw s)) = [(organizer s, balance s)]"
    using w(7) by (simp_all add: m payouts_def)
  assume "fst (callee 0 (organizer s) (balance s) (s\<lparr>entered := True, balance := 0\<rparr>)) = []"
  from w(11) [unfolded re, OF this] os
  show "events (projr (execute callee sender Withdraw s)) = [Withdrawn (organizer s) (balance s)]"
    "balance (transact callee sender Withdraw s) = 0"
    by (simp_all add: m transact_def debited_def)
qed

theorem withdraw_spec_witness:
  "execute all_accept 1 Withdraw pending = Inl Cannot_withdraw_while_prizes_are_pending \<and>
   transact all_accept 1 Withdraw pending = pending \<and>
   transact all_accept 1 Withdraw settled = settled \<and>
   payouts (projr (execute all_accept 1 Withdraw surplus)) = [(1, 4)] \<and>
   events (projr (execute all_accept 1 Withdraw surplus)) = [Withdrawn 1 4] \<and>
   balance (transact all_accept 1 Withdraw surplus) = 0"
proof -
  have a: "activeHackathons pending \<noteq> []"
    by (simp add: pending_eq)
  have b: "balance settled = 0"
    by (simp add: settled_eq)
  have c1: "surplus = run (constructor 1000 1)
       [(all_accept, 1, FundHackathon 7 101), (all_accept, 1, SetWinners 7 [11, 12, 13]),
        (all_accept, 1, EndHackathon 7), (all_accept, 5, Receive 4),
        (all_accept, 1, DistributePrizes 7)]"
    by (simp add: surplus_def ready_def)
  have c2: "(1::nat) \<noteq> 1000 \<and>
    activeHackathons surplus = [] \<and> 1 = organizer surplus \<and> \<not> paused surplus \<and>
    0 < balance surplus \<and>
    snd (all_accept 0 (organizer surplus) (balance surplus) (surplus\<lparr>entered := True, balance := 0\<rparr>))"
    by (simp add: surplus_eq all_accept_def)
  note c = conjI [OF c1 c2]
  have d: "execute all_accept 1 Withdraw pending = Inl Cannot_withdraw_while_prizes_are_pending"
    by (simp add: pending_eq contract_defs)
  have e: "fst (all_accept 0 (organizer surplus) (balance surplus)
      (surplus\<lparr>entered := True, balance := 0\<rparr>)) = []"
    by (simp add: all_accept_def)
  note w = withdraw_spec [where s = surplus and callee = all_accept and sender = 1 and this = 1000
        and deployer = 1 and txs = "[(all_accept, 1, FundHackathon 7 101),
          (all_accept, 1, SetWinners 7 [11, 12, 13]), (all_accept, 1, EndHackathon 7),
          (all_accept, 5, Receive 4), (all_accept, 1, DistributePrizes 7)]",
        THEN conjunct2, THEN conjunct2, rule_format, OF c]
  show ?thesis
    using withdraw_spec [THEN conjunct1, rule_format, OF a, of all_accept 1]
      withdraw_spec [THEN conjunct2, THEN conjunct1, rule_format, OF b, of all_accept 1]
      w [THEN conjunct1] w [THEN conjunct2, THEN conjunct1]
      w [THEN conjunct2, THEN conjunct2, rule_format, OF e] d
    by (simp add: surplus_eq)
qed

section \<open>Events of a distribution\<close>




section \<open>Order of transfers and state changes\<close>




section \<open>The projection is written after confirmation\<close>

text \<open>
  Claim C9. Each of the four handlers makes at most one ledger call. It changes the
  projection only when that call was submitted and confirmed, and then answers with the
  transaction hash. When the submission or the confirmation throws (a timeout of the wait
  included), the projection is left as it was and the response is an error.
\<close>

theorem write_after_confirm:
  assumes "handle env cmd req db = (db', resp, cs)"
  shows "length cs \<le> 1 \<and>
         (db' \<noteq> db \<longrightarrow>
            (\<exists>c tx message. cs = [c] \<and> submitted (ledger env c) = Returns tx \<and>
               confirmed (ledger env c) = Returns () \<and> resp = Success message tx)) \<and>
         ((\<forall>c \<in> set cs. throws (submitted (ledger env c)) \<or> throws (confirmed (ledger env c))) \<longrightarrow>
            db' = db \<and> is_failure resp)"
proof -
  from handler_shape [OF assms] consider
    "cs = []" "db' = db" "is_failure resp"
    | c failed message update where "settle env c failed message update db = (db', resp, cs)"
    by blast
  then show ?thesis
  proof cases
    case 1
    then show ?thesis by simp
  next
    case 2
    note s = settle_cases [OF 2]
    show ?thesis
    proof (intro conjI impI)
      show "length cs \<le> 1"
        using s(1) by simp
    next
      assume "db' \<noteq> db"
      from s(2) [OF this] s(1)
      show "\<exists>c tx message. cs = [c] \<and> submitted (ledger env c) = Returns tx \<and>
               confirmed (ledger env c) = Returns () \<and> resp = Success message tx"
        by blast
    next
      assume "\<forall>c \<in> set cs. throws (submitted (ledger env c)) \<or> throws (confirmed (ledger env c))"
      with s(1) have "throws (submitted (ledger env c)) \<or> throws (confirmed (ledger env c))"
        by simp
      from s(3) [OF this] show "db' = db" "is_failure resp"
        by simp_all
    qed
  qed
qed

text \<open>
  A confirmation that times out leaves the row untouched and answers 500; a confirmed
  transaction writes \<^verbatim>\<open>manually_ended\<close>, its timestamp and the status.
\<close>

theorem write_after_confirm_witness:
  "handle (example_runtime \<lparr>submitted = Returns ''0xabc'', confirmed = Throws ''timeout''\<rparr>)
     End example_request [1 \<mapsto> example_row]
     = ([1 \<mapsto> example_row], Failure 500 ''Failed to end hackathon: timeout'',
        [Call_endHackathon ''1'']) \<and>
   handle (example_runtime \<lparr>submitted = Returns ''0xabc'', confirmed = Returns ()\<rparr>)
     End example_request [1 \<mapsto> example_row]
     = ([1 \<mapsto> example_row\<lparr>manually_ended := Some True,
           manually_ended_at := Some ''2025-01-01T00:00:00.000Z'', status := ''ended''\<rparr>],
        Success ''Hackathon ended successfully'' ''0xabc'', [Call_endHackathon ''1'']) \<and>
   is_failure (Failure 500 ''Failed to end hackathon: timeout'')"
proof -
  have a: "handle (example_runtime \<lparr>submitted = Returns ''0xabc'', confirmed = Throws ''timeout''\<rparr>)
     End example_request [1 \<mapsto> example_row]
     = ([1 \<mapsto> example_row], Failure 500 ''Failed to end hackathon: timeout'',
        [Call_endHackathon ''1''])"
    by (simp add: post_end_def settle_def example_runtime_def example_request_def example_row_def
        column_true_def)
  have b: "handle (example_runtime \<lparr>submitted = Returns ''0xabc'', confirmed = Returns ()\<rparr>)
     End example_request [1 \<mapsto> example_row]
     = ([1 \<mapsto> example_row\<lparr>manually_ended := Some True,
           manually_ended_at := Some ''2025-01-01T00:00:00.000Z'', status := ''ended''\<rparr>],
        Success ''Hackathon ended successfully'' ''0xabc'', [Call_endHackathon ''1''])"
    by (simp add: post_end_def settle_def example_runtime_def example_request_def example_row_def
        column_true_def)
  have c: "\<forall>c \<in> set [Call_endHackathon ''1''].
      throws (submitted (ledger (example_runtime
        \<lparr>submitted = Returns ''0xabc'', confirmed = Throws ''timeout''\<rparr>) c)) \<or>
      throws (confirmed (ledger (example_runtime
        \<lparr>submitted = Returns ''0xabc'', confirmed = Throws ''timeout''\<rparr>) c))"
    by (simp add: example_runtime_def)
  have d: "[(1::int) \<mapsto> example_row\<lparr>manually_ended := Some True,
           manually_ended_at := Some ''2025-01-01T00:00:00.000Z'', status := ''ended''\<rparr>]
      \<noteq> [1 \<mapsto> example_row]"
  proof
    assume "[(1::int) \<mapsto> example_row\<lparr>manually_ended := Some True,
           manually_ended_at := Some ''2025-01-01T00:00:00.000Z'', status := ''ended''\<rparr>]
      = [1 \<mapsto> example_row]"
    then have "[(1::int) \<mapsto> example_row\<lparr>manually_ended := Some True,
           manually_ended_at := Some ''2025-01-01T00:00:00.000Z'', status := ''ended''\<rparr>] 1
      = [(1::int) \<mapsto> example_row] 1"
      by (rule fun_cong)
    then show False
      by (simp add: example_row_def)
  qed
  show ?thesis
    using write_after_confirm [OF a, THEN conjunct2, THEN conjunct2, THEN mp, OF c]
      write_after_confirm [OF b, THEN conjunct2, THEN conjunct1, THEN mp, OF d]
      a b
    by simp
qed

end
